theory Spec2Isabelle
  imports Complex_Main "HOL-Library.Sublist"
begin

section \<open>Text, character classes and the regular expressions of masking.py\<close>

text \<open>
  A Python \<open>str\<close> is modelled as a \<open>string\<close>: a list of 8-bit characters, read as the
  code points 0..255. The classes below are the ones Python's \<open>re\<close> module and \<open>str.strip\<close>
  use on these code points: \<open>\d\<close> is the ten ASCII digits, \<open>\s\<close> and \<open>str.isspace\<close> are the
  twelve white-space code points, and \<open>\w\<close> (which decides \<open>\b\<close>) is the alphanumeric
  code points and the underscore.
\<close>

definition is_digit :: "char \<Rightarrow> bool" where
  "is_digit c = (c \<in> set ''0123456789'')"

definition is_space :: "char \<Rightarrow> bool" where
  "is_space c = (c \<in> set [CHR 0x09, CHR 0x0A, CHR 0x0B, CHR 0x0C, CHR 0x0D,
     CHR 0x1C, CHR 0x1D, CHR 0x1E, CHR 0x1F, CHR 0x20, CHR 0x85, CHR 0xA0])"

definition is_upper :: "char \<Rightarrow> bool" where
  "is_upper c = (c \<in> set ''ABCDEFGHIJKLMNOPQRSTUVWXYZ'')"

definition is_lower :: "char \<Rightarrow> bool" where
  "is_lower c = (c \<in> set ''abcdefghijklmnopqrstuvwxyz'')"

definition is_latin1_alnum :: "char \<Rightarrow> bool" where
  "is_latin1_alnum c = (c \<in> set [CHR 0xAA, CHR 0xB2, CHR 0xB3, CHR 0xB5, CHR 0xB9, CHR 0xBA,
     CHR 0xBC, CHR 0xBD, CHR 0xBE,
     CHR 0xC0, CHR 0xC1, CHR 0xC2, CHR 0xC3, CHR 0xC4, CHR 0xC5, CHR 0xC6, CHR 0xC7,
     CHR 0xC8, CHR 0xC9, CHR 0xCA, CHR 0xCB, CHR 0xCC, CHR 0xCD, CHR 0xCE, CHR 0xCF,
     CHR 0xD0, CHR 0xD1, CHR 0xD2, CHR 0xD3, CHR 0xD4, CHR 0xD5, CHR 0xD6,
     CHR 0xD8, CHR 0xD9, CHR 0xDA, CHR 0xDB, CHR 0xDC, CHR 0xDD, CHR 0xDE, CHR 0xDF,
     CHR 0xE0, CHR 0xE1, CHR 0xE2, CHR 0xE3, CHR 0xE4, CHR 0xE5, CHR 0xE6, CHR 0xE7,
     CHR 0xE8, CHR 0xE9, CHR 0xEA, CHR 0xEB, CHR 0xEC, CHR 0xED, CHR 0xEE, CHR 0xEF,
     CHR 0xF0, CHR 0xF1, CHR 0xF2, CHR 0xF3, CHR 0xF4, CHR 0xF5, CHR 0xF6,
     CHR 0xF8, CHR 0xF9, CHR 0xFA, CHR 0xFB, CHR 0xFC, CHR 0xFD, CHR 0xFE, CHR 0xFF])"

text \<open>\<open>\w\<close>: alphanumeric or underscore.\<close>

definition is_word :: "char \<Rightarrow> bool" where
  "is_word c = (is_digit c \<or> is_upper c \<or> is_lower c \<or> c = CHR ''_'' \<or> is_latin1_alnum c)"

text \<open>The separator class \<open>[-.\s]\<close> of the phone patterns.\<close>

definition is_sep :: "char \<Rightarrow> bool" where
  "is_sep c = (c = CHR ''-'' \<or> c = CHR ''.'' \<or> is_space c)"

text \<open>The classes of the email pattern: \<open>[A-Za-z0-9._%+-]\<close>, \<open>[A-Za-z0-9.-]\<close> and
  \<open>[A-Z|a-z]\<close> (the bar is a member of the class).\<close>

definition is_local :: "char \<Rightarrow> bool" where
  "is_local c = (is_upper c \<or> is_lower c \<or> is_digit c \<or> c \<in> set ''._%+-'')"

definition is_domain :: "char \<Rightarrow> bool" where
  "is_domain c = (is_upper c \<or> is_lower c \<or> is_digit c \<or> c \<in> set ''.-'')"

definition is_tld :: "char \<Rightarrow> bool" where
  "is_tld c = (is_upper c \<or> c = CHR ''|'' \<or> is_lower c)"

text \<open>
  Every pattern of \<open>mask_text\<close> is a sequence of atoms, each either the assertion \<open>\b\<close> or a
  greedy repetition \<open>X{lo,hi}\<close> of a one-character class \<open>X\<close> (a plain \<open>X\<close> is \<open>X{1,1}\<close>, \<open>X?\<close> is
  \<open>X{0,1}\<close>, \<open>X*\<close> is \<open>X{0,}\<close>, \<open>X+\<close> is \<open>X{1,}\<close>; \<open>None\<close> stands for no upper bound).
\<close>

datatype atom = Rep "char \<Rightarrow> bool" nat "nat option" | WordB

type_synonym pattern = "atom list"

definition lit :: "char \<Rightarrow> atom" where
  "lit c = Rep (\<lambda>x. x = c) 1 (Some 1)"

definition opt :: "(char \<Rightarrow> bool) \<Rightarrow> atom" where
  "opt P = Rep P 0 (Some 1)"

definition times :: "(char \<Rightarrow> bool) \<Rightarrow> nat \<Rightarrow> atom" where
  "times P n = Rep P n (Some n)"

fun below :: "nat \<Rightarrow> nat option \<Rightarrow> bool" where
  "below k None = True"
| "below k (Some hi) = (k < hi)"

text \<open>\<open>\b\<close> holds between the previous character (if any) and the next one (if any) when
  exactly one of them is a word character.\<close>

fun word_char :: "char option \<Rightarrow> bool" where
  "word_char None = False"
| "word_char (Some c) = is_word c"

fun next_char :: "string \<Rightarrow> char option" where
  "next_char [] = None"
| "next_char (c # cs) = Some c"

definition word_boundary :: "char option \<Rightarrow> string \<Rightarrow> bool" where
  "word_boundary prev s = (word_char prev \<noteq> word_char (next_char s))"

text \<open>
  The backtracking matcher: \<open>match_here p k prev s\<close> matches the pattern \<open>p\<close> at the head of
  \<open>s\<close>, where \<open>prev\<close> is the character before \<open>s\<close> and \<open>k\<close> counts the repetitions the first
  atom has already consumed. A repetition takes one more character whenever it may, and gives
  it back when the rest of the pattern fails (greedy, longest first). The result is the
  length of the first match the engine finds.
\<close>

fun match_here :: "pattern \<Rightarrow> nat \<Rightarrow> char option \<Rightarrow> string \<Rightarrow> nat option" where
  "match_here [] k prev s = Some 0"
| "match_here (WordB # as) k prev s =
     (if word_boundary prev s then match_here as 0 prev s else None)"
| "match_here (Rep P lo hi # as) k prev [] =
     (if lo \<le> k then match_here as 0 prev [] else None)"
| "match_here (Rep P lo hi # as) k prev (c # cs) =
     (if P c \<and> below k hi then
        (case match_here (Rep P lo hi # as) (Suc k) (Some c) cs of
           Some n \<Rightarrow> Some (Suc n)
         | None \<Rightarrow> if lo \<le> k then match_here as 0 prev (c # cs) else None)
      else if lo \<le> k then match_here as 0 prev (c # cs) else None)"

text \<open>
  \<open>re.findall(pattern, text)\<close> for a pattern without groups: the matched substrings, scanning
  left to right, each search resuming where the previous match ended. \<open>find_from\<close> carries
  the character before the current position.
\<close>

function find_from :: "pattern \<Rightarrow> char option \<Rightarrow> string \<Rightarrow> string list" where
  "find_from p prev [] = (case match_here p 0 prev [] of Some n \<Rightarrow> [[]] | None \<Rightarrow> [])"
| "find_from p prev (c # cs) =
     (case match_here p 0 prev (c # cs) of
        None \<Rightarrow> find_from p (Some c) cs
      | Some 0 \<Rightarrow> [] # find_from p (Some c) cs
      | Some (Suc n) \<Rightarrow>
          take (Suc n) (c # cs) # find_from p (Some (last (take (Suc n) (c # cs)))) (drop n cs))"
  by pat_completeness auto
termination
  by (relation "measure (\<lambda>(p, prev, s). length s)") auto

definition findall :: "pattern \<Rightarrow> string \<Rightarrow> string list" where
  "findall p s = find_from p None s"

subsection \<open>The patterns\<close>

text \<open>\<^verbatim>\<open>\+\d{1,3}[-.\s]?\d{3}[-.\s]?\d{4}\<close>\<close>

definition phone_pattern_1 :: pattern where
  "phone_pattern_1 = [lit CHR ''+'', Rep is_digit 1 (Some 3), opt is_sep, times is_digit 3,
     opt is_sep, times is_digit 4]"

text \<open>\<^verbatim>\<open>\+\d{1,3}[-.\s]?\(?\d{3}\)?[-.\s]?\d{3}[-.\s]?\d{4}\<close>\<close>

definition phone_pattern_2 :: pattern where
  "phone_pattern_2 = [lit CHR ''+'', Rep is_digit 1 (Some 3), opt is_sep,
     opt (\<lambda>x. x = CHR ''(''), times is_digit 3, opt (\<lambda>x. x = CHR '')''), opt is_sep,
     times is_digit 3, opt is_sep, times is_digit 4]"

text \<open>\<^verbatim>\<open>\(\d{3}\)\s*\d{3}[-.\s]?\d{4}\<close>\<close>

definition phone_pattern_3 :: pattern where
  "phone_pattern_3 = [lit CHR ''('', times is_digit 3, lit CHR '')'', Rep is_space 0 None,
     times is_digit 3, opt is_sep, times is_digit 4]"

text \<open>\<^verbatim>\<open>\d{3}[-.\s]\d{3}[-.\s]\d{4}\<close>\<close>

definition phone_pattern_4 :: pattern where
  "phone_pattern_4 = [times is_digit 3, times is_sep 1, times is_digit 3, times is_sep 1,
     times is_digit 4]"

text \<open>\<^verbatim>\<open>\b\d{10}\b\<close>\<close>

definition phone_pattern_5 :: pattern where
  "phone_pattern_5 = [WordB, times is_digit 10, WordB]"

definition phone_patterns :: "pattern list" where
  "phone_patterns = [phone_pattern_1, phone_pattern_2, phone_pattern_3, phone_pattern_4,
     phone_pattern_5]"

text \<open>\<^verbatim>\<open>\b[A-Za-z0-9._%+-]+@[A-Za-z0-9.-]+\.[A-Z|a-z]{2,}\b\<close>\<close>

definition email_pattern :: pattern where
  "email_pattern = [WordB, Rep is_local 1 None, lit CHR ''@'', Rep is_domain 1 None,
     lit CHR ''.'', Rep is_tld 2 None, WordB]"

section \<open>String operations\<close>

text \<open>\<open>old.replace(old, new, 1)\<close>: the first occurrence only. An empty \<open>old\<close> occurs at the
  head.\<close>

fun replace_first :: "string \<Rightarrow> string \<Rightarrow> string \<Rightarrow> string" where
  "replace_first old new [] = (if old = [] then new else [])"
| "replace_first old new (c # cs) =
     (if prefix old (c # cs) then new @ drop (length old) (c # cs)
      else c # replace_first old new cs)"

text \<open>\<open>s.replace(old, new)\<close>: every occurrence, left to right, without overlap. An empty
  \<open>old\<close> occurs before every character and at the end.\<close>

function replace_all :: "string \<Rightarrow> string \<Rightarrow> string \<Rightarrow> string" where
  "replace_all old new [] = (if old = [] then new else [])"
| "replace_all old new (c # cs) =
     (if old = [] then new @ c # replace_all old new cs
      else if prefix old (c # cs) then new @ replace_all old new (drop (length old) (c # cs))
      else c # replace_all old new cs)"
  by pat_completeness auto
termination
  by (relation "measure (\<lambda>(old, new, s). length s)") (auto simp: prefix_def)

text \<open>\<open>bool(s.strip())\<close>: some character of \<open>s\<close> is not white space.\<close>

definition strip_nonempty :: "string \<Rightarrow> bool" where
  "strip_nonempty s = (\<exists>c \<in> set s. \<not> is_space c)"

text \<open>\<open>str(n)\<close> for a natural number: its decimal digits.\<close>

definition digit_char :: "nat \<Rightarrow> char" where
  "digit_char d = ''0123456789'' ! d"

function str_nat :: "nat \<Rightarrow> string" where
  "str_nat n = (if n < 10 then [digit_char n] else str_nat (n div 10) @ [digit_char (n mod 10)])"
  by pat_completeness auto
termination
  by (relation "measure id") auto

section \<open>Dictionaries\<close>

text \<open>A \<open>dict\<close> from strings is an association list in insertion order with distinct keys:
  assigning to a key that is present overwrites its value in place, assigning to a new key
  appends it. \<open>items()\<close> is the list itself.\<close>

type_synonym 'v dict = "(string \<times> 'v) list"

fun dict_set :: "'v dict \<Rightarrow> string \<Rightarrow> 'v \<Rightarrow> 'v dict" where
  "dict_set [] k v = [(k, v)]"
| "dict_set ((k', v') # d) k v = (if k' = k then (k, v) # d else (k', v') # dict_set d k v)"

definition dict_values :: "'v dict \<Rightarrow> 'v list" where
  "dict_values d = map snd d"

definition dict_get :: "'v dict \<Rightarrow> string \<Rightarrow> 'v option" where
  "dict_get d k = map_of d k"

text \<open>\<open>d.update(other)\<close>\<close>

definition dict_update :: "'v dict \<Rightarrow> 'v dict \<Rightarrow> 'v dict" where
  "dict_update d other = foldl (\<lambda>acc (k, v). dict_set acc k v) d other"

section \<open>masking.py\<close>

definition phone_placeholder :: "nat \<Rightarrow> string" where
  "phone_placeholder n = ''[PHONE_'' @ str_nat n @ '']''"

definition email_placeholder :: "nat \<Rightarrow> string" where
  "email_placeholder n = ''[EMAIL_'' @ str_nat n @ '']''"

text \<open>The state of the phone loops: \<open>masked_text\<close>, \<open>mapping\<close> and \<open>phone_counter\<close>.\<close>

type_synonym mask_state = "string \<times> string dict \<times> nat"

fun phone_step :: "mask_state \<Rightarrow> string \<Rightarrow> mask_state" where
  "phone_step (masked_text, mapping, phone_counter) phone =
     (if strip_nonempty phone \<and> phone \<notin> set (dict_values mapping) then
        (replace_first phone (phone_placeholder phone_counter) masked_text,
         dict_set mapping (phone_placeholder phone_counter) phone,
         phone_counter + 1)
      else (masked_text, mapping, phone_counter))"

fun pattern_step :: "mask_state \<Rightarrow> pattern \<Rightarrow> mask_state" where
  "pattern_step (masked_text, mapping, phone_counter) p =
     foldl phone_step (masked_text, mapping, phone_counter) (findall p masked_text)"

definition mask_phones :: "string \<Rightarrow> mask_state" where
  "mask_phones text = foldl pattern_step (text, [], 1) phone_patterns"

fun email_step :: "string \<times> string dict \<Rightarrow> nat \<times> string \<Rightarrow> string \<times> string dict" where
  "email_step (masked_text, mapping) (i, email) =
     (replace_first email (email_placeholder i) masked_text,
      dict_set mapping (email_placeholder i) email)"

text \<open>\<open>enumerate(emails, 1)\<close>\<close>

definition enumerate1 :: "'a list \<Rightarrow> (nat \<times> 'a) list" where
  "enumerate1 xs = zip [1 ..< Suc (length xs)] xs"

definition mask_text :: "string \<Rightarrow> string \<times> string dict" where
  "mask_text text =
     (case mask_phones text of (masked_text, mapping, phone_counter) \<Rightarrow>
        foldl email_step (masked_text, mapping) (enumerate1 (findall email_pattern masked_text)))"

definition unmask_text :: "string \<Rightarrow> string dict \<Rightarrow> string" where
  "unmask_text text mapping =
     foldl (\<lambda>unmasked_text (placeholder, original_value).
              replace_all placeholder original_value unmasked_text) text mapping"


text \<open>
  Python values held in a context dictionary, and the exceptions of the modelled code. An
  \<open>error\<close> carries the text \<open>str(e)\<close> of the exception; every exception modelled here is a
  subclass of \<open>Exception\<close>.
\<close>

datatype pyval = VNone | VStr string | VInt int | VFloat real | VList "pyval list"
  | VDict "(string \<times> pyval) list"

datatype error = TypeError string | ValueError string | OtherError string

fun str_error :: "error \<Rightarrow> string" where
  "str_error (TypeError m) = m"
| "str_error (ValueError m) = m"
| "str_error (OtherError m) = m"

text \<open>\<open>mask_text\<close> applied to a dictionary value: \<open>re.findall\<close> raises \<open>TypeError\<close> on anything
  that is not a string.\<close>

fun mask_text_val :: "pyval \<Rightarrow> error + (string \<times> string dict)" where
  "mask_text_val (VStr s) = Inr (mask_text s)"
| "mask_text_val v = Inl (TypeError ''expected string or bytes-like object'')"

definition mask_field ::
  "string \<Rightarrow> (pyval dict \<times> string dict) \<Rightarrow> error + (pyval dict \<times> string dict)" where
  "mask_field key st =
     (case st of (masked_context, all_mappings) \<Rightarrow>
        (case dict_get masked_context key of
           None \<Rightarrow> Inr (masked_context, all_mappings)
         | Some v \<Rightarrow>
             (case mask_text_val v of
                Inl e \<Rightarrow> Inl e
              | Inr (masked, mapping) \<Rightarrow>
                  Inr (dict_set masked_context key (VStr masked),
                       dict_update all_mappings mapping))))"

definition mask_customer_context :: "pyval dict \<Rightarrow> error + (pyval dict \<times> string dict)" where
  "mask_customer_context context =
     (case mask_field ''phone'' (context, []) of
        Inl e \<Rightarrow> Inl e
      | Inr st \<Rightarrow> mask_field ''email'' st)"

section \<open>database.py: distance and the nearest store\<close>

text \<open>
  Python floats are idealised as real numbers: \<open>math.sin\<close>, \<open>math.cos\<close>, \<open>math.sqrt\<close> and
  \<open>math.atan2\<close> are the real functions, and \<open>round(x, 1)\<close> rounds to the nearest tenth, a tie
  going to the even one. \<open>math.sqrt\<close> raises \<open>ValueError\<close> on a negative argument; over the
  reals \<open>a\<close> stays within 0 and 1 and that never happens, whereas the floats of the code can
  round \<open>a\<close> above 1. This idealisation serves the scan for the nearest store; properties of
  \<open>calculate_distance\<close> at every pair of points are stated of the general form given after it.
\<close>

definition radians :: "real \<Rightarrow> real" where
  "radians x = x * (pi / 180)"

definition atan2 :: "real \<Rightarrow> real \<Rightarrow> real" where
  "atan2 y x =
     (if 0 < x then arctan (y / x)
      else if x < 0 \<and> 0 \<le> y then arctan (y / x) + pi
      else if x < 0 then arctan (y / x) - pi
      else if 0 < y then pi / 2
      else if y < 0 then - (pi / 2)
      else 0)"

definition math_sqrt :: "real \<Rightarrow> error + real" where
  "math_sqrt x = (if x < 0 then Inl (ValueError ''math domain error'') else Inr (sqrt x))"

definition round_half_even :: "real \<Rightarrow> int" where
  "round_half_even y =
     (if y - of_int \<lfloor>y\<rfloor> < 1 / 2 then \<lfloor>y\<rfloor>
      else if 1 / 2 < y - of_int \<lfloor>y\<rfloor> then \<lfloor>y\<rfloor> + 1
      else if even \<lfloor>y\<rfloor> then \<lfloor>y\<rfloor> else \<lfloor>y\<rfloor> + 1)"

definition round1 :: "real \<Rightarrow> real" where
  "round1 x = of_int (round_half_even (x * 10)) / 10"

definition earth_radius :: real where
  "earth_radius = 6371000"

definition haversine_a :: "real \<Rightarrow> real \<Rightarrow> real \<Rightarrow> real \<Rightarrow> real" where
  "haversine_a lat1 lon1 lat2 lon2 =
     (sin (radians (lat2 - lat1) / 2))\<^sup>2
     + cos (radians lat1) * cos (radians lat2) * (sin (radians (lon2 - lon1) / 2))\<^sup>2"

definition calculate_distance :: "real \<Rightarrow> real \<Rightarrow> real \<Rightarrow> real \<Rightarrow> error + real" where
  "calculate_distance lat1 lon1 lat2 lon2 =
     (case math_sqrt (haversine_a lat1 lon1 lat2 lon2) of
        Inl e \<Rightarrow> Inl e
      | Inr y \<Rightarrow>
          (case math_sqrt (1 - haversine_a lat1 lon1 lat2 lon2) of
             Inl e \<Rightarrow> Inl e
           | Inr x \<Rightarrow> Inr (round1 (earth_radius * (2 * atan2 y x)))))"

text \<open>A \<open>REAL\<close> column holds a float or \<open>NULL\<close>. Passing \<open>None\<close> to \<open>math.radians\<close> raises
  \<open>TypeError\<close>.\<close>

fun calculate_distance_val ::
  "real \<Rightarrow> real \<Rightarrow> real option \<Rightarrow> real option \<Rightarrow> error + real" where
  "calculate_distance_val lat1 lon1 (Some lat2) (Some lon2) =
     calculate_distance lat1 lon1 lat2 lon2"
| "calculate_distance_val lat1 lon1 lat2 lon2 = Inl (TypeError ''must be real number, not NoneType'')"

subsection \<open>The distance over an arbitrary float arithmetic\<close>

text \<open>
  A Python float is not a real number: every operation rounds, and \<open>math.sqrt (1 - a)\<close>
  raises \<open>ValueError\<close> when rounding has pushed \<open>a\<close> above 1, which happens at valid pairs of
  nearly antipodal points. To reason about every call, \<open>calculate_distance\<close> is also written
  over an arbitrary arithmetic: a carrier \<open>'f\<close> for the floats and one function for each
  operation the source applies, in the order the source applies them. \<open>f_of_int\<close> converts
  the integer literals \<open>2\<close>, \<open>1\<close> and \<open>6371000\<close>; \<open>f_square\<close> is \<open>x ** 2\<close>; \<open>f_round1\<close> is
  \<open>round(x, 1)\<close>; \<open>f_sqrt\<close> may raise.
\<close>

record 'f arith =
  f_of_int :: "int \<Rightarrow> 'f"
  f_add :: "'f \<Rightarrow> 'f \<Rightarrow> 'f"
  f_sub :: "'f \<Rightarrow> 'f \<Rightarrow> 'f"
  f_mul :: "'f \<Rightarrow> 'f \<Rightarrow> 'f"
  f_div :: "'f \<Rightarrow> 'f \<Rightarrow> 'f"
  f_square :: "'f \<Rightarrow> 'f"
  f_radians :: "'f \<Rightarrow> 'f"
  f_sin :: "'f \<Rightarrow> 'f"
  f_cos :: "'f \<Rightarrow> 'f"
  f_sqrt :: "'f \<Rightarrow> error + 'f"
  f_atan2 :: "'f \<Rightarrow> 'f \<Rightarrow> 'f"
  f_round1 :: "'f \<Rightarrow> 'f"

text \<open>The variable \<open>a\<close> of the source.\<close>

definition haversine_a_in :: "'f arith \<Rightarrow> 'f \<Rightarrow> 'f \<Rightarrow> 'f \<Rightarrow> 'f \<Rightarrow> 'f" where
  "haversine_a_in ar lat1 lon1 lat2 lon2 =
     (let lat1_rad = f_radians ar lat1;
          lat2_rad = f_radians ar lat2;
          delta_lat = f_radians ar (f_sub ar lat2 lat1);
          delta_lon = f_radians ar (f_sub ar lon2 lon1)
      in f_add ar (f_square ar (f_sin ar (f_div ar delta_lat (f_of_int ar 2))))
           (f_mul ar (f_mul ar (f_cos ar lat1_rad) (f_cos ar lat2_rad))
              (f_square ar (f_sin ar (f_div ar delta_lon (f_of_int ar 2))))))"

text \<open>The rest of the body: \<open>c\<close>, \<open>distance = R * c\<close> and \<open>round(distance, 1)\<close>.\<close>

definition distance_of :: "'f arith \<Rightarrow> 'f \<Rightarrow> error + 'f" where
  "distance_of ar a =
     (case f_sqrt ar a of
        Inl e \<Rightarrow> Inl e
      | Inr y \<Rightarrow>
          (case f_sqrt ar (f_sub ar (f_of_int ar 1) a) of
             Inl e \<Rightarrow> Inl e
           | Inr x \<Rightarrow>
               Inr (f_round1 ar (f_mul ar (f_of_int ar 6371000)
                      (f_mul ar (f_of_int ar 2) (f_atan2 ar y x))))))"

definition calculate_distance_in ::
  "'f arith \<Rightarrow> 'f \<Rightarrow> 'f \<Rightarrow> 'f \<Rightarrow> 'f \<Rightarrow> error + 'f" where
  "calculate_distance_in ar lat1 lon1 lat2 lon2 =
     distance_of ar (haversine_a_in ar lat1 lon1 lat2 lon2)"

text \<open>
  What the symmetry of the distance needs of the arithmetic, with \<open>neg\<close> the change of sign.
  IEEE 754 arithmetic has each of these properties, because rounding to nearest is symmetric
  in the sign: \<open>x - y\<close> is the negation of \<open>y - x\<close>, the product is commutative, and
  \<open>math.radians\<close> (a product with a constant), the division by 2 and \<open>x ** 2\<close> commute with or
  absorb the sign. \<open>math.sin\<close> is the sine of the C library, an odd function there.
\<close>

definition sign_symmetric :: "'f arith \<Rightarrow> ('f \<Rightarrow> 'f) \<Rightarrow> bool" where
  "sign_symmetric ar neg =
     ((\<forall>x y. f_sub ar x y = neg (f_sub ar y x))
      \<and> (\<forall>x. f_radians ar (neg x) = neg (f_radians ar x))
      \<and> (\<forall>x y. f_div ar (neg x) y = neg (f_div ar x y))
      \<and> (\<forall>x. f_sin ar (neg x) = neg (f_sin ar x))
      \<and> (\<forall>x. f_square ar (neg x) = f_square ar x)
      \<and> (\<forall>x y. f_mul ar x y = f_mul ar y x))"

text \<open>
  What the distance of the origin to itself needs: the operations are exact at 0 and 1
  (\<open>0 - 0\<close>, \<open>sin 0\<close>, \<open>x * 0\<close>, \<open>sqrt 0\<close>, \<open>sqrt 1\<close>, \<open>atan2 (0, 1)\<close> and so on are not rounded).
\<close>

definition exact_at_zero :: "'f arith \<Rightarrow> bool" where
  "exact_at_zero ar =
     (let zero = f_of_int ar 0; one = f_of_int ar 1 in
      f_sub ar zero zero = zero
      \<and> f_radians ar zero = zero
      \<and> f_div ar zero (f_of_int ar 2) = zero
      \<and> f_sin ar zero = zero
      \<and> f_square ar zero = zero
      \<and> (\<forall>x. f_mul ar x zero = zero)
      \<and> f_add ar zero zero = zero
      \<and> f_sqrt ar zero = Inr zero
      \<and> f_sub ar one zero = one
      \<and> f_sqrt ar one = Inr one
      \<and> f_atan2 ar zero one = zero
      \<and> f_round1 ar zero = zero)"

text \<open>The arithmetic of the real numbers, and one that rounds every sum up by \<open>2 ^ -52\<close>.\<close>

definition real_arith :: "real arith" where
  "real_arith = \<lparr>f_of_int = of_int, f_add = (+), f_sub = (-), f_mul = (*), f_div = (/),
     f_square = (\<lambda>x. x\<^sup>2), f_radians = radians, f_sin = sin, f_cos = cos, f_sqrt = math_sqrt,
     f_atan2 = atan2, f_round1 = round1\<rparr>"

definition rounding_up_arith :: "real arith" where
  "rounding_up_arith = real_arith \<lparr>f_add := (\<lambda>x y. x + y + 1 / 2 ^ 52)\<rparr>"

record customer_row =
  customer_id :: int
  customer_latitude :: "real option"
  customer_longitude :: "real option"

record store =
  store_id :: int
  store_name :: string
  store_latitude :: "real option"
  store_longitude :: "real option"
  store_address :: "string option"
  open_time :: "string option"
  close_time :: "string option"

text \<open>The tables, each in the order a scan returns its rows.\<close>

record database =
  customers :: "customer_row list"
  stores :: "store list"

text \<open>The value \<open>get_nearest_store_for_customer\<close> returns: the empty dictionary, \<open>None\<close>, or
  the store's row with the key \<open>distance_m\<close> added.\<close>

datatype store_result = EmptyDict | PyNone | StoreDict store real

text \<open>\<open>not x\<close> for a nullable float: \<open>None\<close> and \<open>0.0\<close> are false.\<close>

fun falsy :: "real option \<Rightarrow> bool" where
  "falsy None = True"
| "falsy (Some x) = (x = 0)"

text \<open>The scan for the nearest store. \<open>min_distance\<close> starts at \<open>float('inf')\<close>, here
  \<open>None\<close>.\<close>

fun closer :: "real \<Rightarrow> real option \<Rightarrow> bool" where
  "closer d None = True"
| "closer d (Some m) = (d < m)"

fun nearest_scan ::
  "real \<Rightarrow> real \<Rightarrow> store list \<Rightarrow> store_result \<Rightarrow> real option \<Rightarrow> error + store_result" where
  "nearest_scan lat lon [] nearest_store min_distance = Inr nearest_store"
| "nearest_scan lat lon (s # ss) nearest_store min_distance =
     (case calculate_distance_val lat lon (store_latitude s) (store_longitude s) of
        Inl e \<Rightarrow> Inl e
      | Inr distance \<Rightarrow>
          if closer distance min_distance
          then nearest_scan lat lon ss (StoreDict s distance) (Some distance)
          else nearest_scan lat lon ss nearest_store min_distance)"

definition fetch_customer :: "database \<Rightarrow> int \<Rightarrow> customer_row option" where
  "fetch_customer db cid = find (\<lambda>c. customer_id c = cid) (customers db)"

definition default_store :: "database \<Rightarrow> store_result" where
  "default_store db = (case stores db of [] \<Rightarrow> EmptyDict | s # ss \<Rightarrow> StoreDict s 50)"

definition get_nearest_store_for_customer :: "database \<Rightarrow> int \<Rightarrow> error + store_result" where
  "get_nearest_store_for_customer db cid =
     (case fetch_customer db cid of
        None \<Rightarrow> Inr (default_store db)
      | Some customer_row \<Rightarrow>
          if falsy (customer_latitude customer_row) \<or> falsy (customer_longitude customer_row)
          then Inr (default_store db)
          else if stores db = [] then Inr EmptyDict
          else nearest_scan (the (customer_latitude customer_row))
                 (the (customer_longitude customer_row)) (stores db) PyNone None)"

section \<open>rag.py: retrieval\<close>

text \<open>
  The vector store is a map from collection names to collections; \<open>get_collection\<close> raises
  when the name is absent. The embedding model and the similarity search are external and
  may raise: they are parameters. A query result carries its \<open>documents\<close> field.
\<close>

record ('c, 'e) rag_system =
  collections :: "string \<rightharpoonup> 'c"
  collection_name :: string
  encode :: "string \<Rightarrow> error + 'e"
  query :: "'c \<Rightarrow> 'e \<Rightarrow> nat \<Rightarrow> error + string list list option"

definition get_collection :: "('c, 'e) rag_system \<Rightarrow> string \<Rightarrow> error + 'c" where
  "get_collection rag name =
     (case collections rag name of
        None \<Rightarrow> Inl (ValueError (''Collection '' @ name @ '' does not exist.''))
      | Some c \<Rightarrow> Inr c)"

definition retrieve :: "('c, 'e) rag_system \<Rightarrow> string \<Rightarrow> nat \<Rightarrow> error + string list" where
  "retrieve rag q k =
     (case get_collection rag (collection_name rag) of
        Inl e \<Rightarrow> Inr []
      | Inr collection \<Rightarrow>
          (case encode rag q of
             Inl e \<Rightarrow> Inl e
           | Inr query_embedding \<Rightarrow>
               (case query rag collection query_embedding k of
                  Inl e \<Rightarrow> Inl e
                | Inr None \<Rightarrow> Inr []
                | Inr (Some []) \<Rightarrow> Inr []
                | Inr (Some (docs # rest)) \<Rightarrow> Inr docs)))"

section \<open>streamlit\_app.py: process\_message\<close>

text \<open>
  The collaborators of \<open>process_message\<close> that live outside the modelled core are
  parameters, each returning its value or the exception it raised: the customer lookup, the
  retrieval entry point \<open>rag_retrieve\<close>, the prompt renderer and the language-model call.
  \<open>st.warning\<close> is recorded in the list of warnings returned beside the response.
\<close>

record app_env =
  db :: database
  get_customer_context :: "int \<Rightarrow> error + pyval dict"
  rag_retrieve :: "string \<Rightarrow> nat \<Rightarrow> error + string list"
  build_prompt :: "pyval dict \<Rightarrow> store_result \<Rightarrow> string list \<Rightarrow> string \<Rightarrow> error + (string \<times> string)"
  call_llm_with_system :: "string \<Rightarrow> string \<Rightarrow> error + string"

definition TOP_K_RAG :: nat where
  "TOP_K_RAG = 4"

definition apology :: "error \<Rightarrow> string" where
  "apology e = ''I apologize, but I encountered an error: '' @ str_error e
     @ [CHR 0x0A, CHR 0x0A] @ ''Please make sure your GROQ_API_KEY is set in the .env file.''"

text \<open>The inner \<open>try\<close>: a failed retrieval leaves \<open>rag_docs\<close> empty and emits a warning.\<close>

definition retrieve_docs :: "app_env \<Rightarrow> string \<Rightarrow> string list \<times> string list" where
  "retrieve_docs env masked_message =
     (case rag_retrieve env masked_message TOP_K_RAG of
        Inl e \<Rightarrow> ([''RAG retrieval unavailable: '' @ str_error e], [])
      | Inr docs \<Rightarrow> ([], docs))"

text \<open>The body of the outer \<open>try\<close>: the warnings emitted, and the response or the exception
  that left the body.\<close>

definition process_body :: "app_env \<Rightarrow> string \<Rightarrow> int \<Rightarrow> string list \<times> (error + string)" where
  "process_body env user_message cid =
     (case get_customer_context env cid of
        Inl e \<Rightarrow> ([], Inl e)
      | Inr customer_ctx \<Rightarrow>
     (case get_nearest_store_for_customer (db env) cid of
        Inl e \<Rightarrow> ([], Inl e)
      | Inr store_ctx \<Rightarrow>
     (case mask_text user_message of (masked_message, pii_mapping) \<Rightarrow>
     (case mask_customer_context customer_ctx of
        Inl e \<Rightarrow> ([], Inl e)
      | Inr (masked_customer_ctx, customer_pii_mapping) \<Rightarrow>
     (case retrieve_docs env masked_message of (warnings, rag_docs) \<Rightarrow>
     (case build_prompt env masked_customer_ctx store_ctx rag_docs masked_message of
        Inl e \<Rightarrow> (warnings, Inl e)
      | Inr (system_prompt, user_prompt) \<Rightarrow>
     (case call_llm_with_system env system_prompt user_prompt of
        Inl e \<Rightarrow> (warnings, Inl e)
      | Inr response_masked \<Rightarrow>
          (warnings,
           Inr (unmask_text response_masked
                  (dict_update pii_mapping customer_pii_mapping))))))))))"

definition process_message :: "app_env \<Rightarrow> string \<Rightarrow> int \<Rightarrow> string list \<times> string" where
  "process_message env user_message cid =
     (case process_body env user_message cid of
        (warnings, Inl e) \<Rightarrow> (warnings, apology e)
      | (warnings, Inr response) \<Rightarrow> (warnings, response))"


section \<open>Example data\<close>

text \<open>A message carrying one phone number and a customer record carrying another.\<close>

definition callback_message :: string where
  "callback_message = ''Call me at 555-123-4567''"

definition bob_context :: "pyval dict" where
  "bob_context = [(''name'', VStr ''Bob''), (''phone'', VStr ''+1-555-0101'')]"

text \<open>A customer standing on the equator, the first store of the seed data, and a store at
  the customer's own position.\<close>

definition downtown :: store where
  "downtown = \<lparr>store_id = 1, store_name = ''BeanHaven Coffee - Downtown'',
     store_latitude = Some 40.7589, store_longitude = Some (-73.9851),
     store_address = Some ''123 Main St, New York, NY'', open_time = Some ''06:00'',
     close_time = Some ''21:00''\<rparr>"

definition kiosk :: store where
  "kiosk = \<lparr>store_id = 2, store_name = ''BeanHaven Coffee - Equator'',
     store_latitude = Some 0, store_longitude = Some (-73.9851),
     store_address = None, open_time = None, close_time = None\<rparr>"

definition equator_db :: database where
  "equator_db = \<lparr>customers = [\<lparr>customer_id = 1, customer_latitude = Some 0,
       customer_longitude = Some (-73.9851)\<rparr>],
     stores = [downtown, kiosk]\<rparr>"

text \<open>A database whose only customer has no coordinates.\<close>

definition nowhere_db :: database where
  "nowhere_db = \<lparr>customers = [\<lparr>customer_id = 3, customer_latitude = None,
       customer_longitude = Some (-73.9851)\<rparr>],
     stores = [downtown, kiosk]\<rparr>"

text \<open>A retrieval system whose index was never built.\<close>

definition unbuilt_rag :: "(unit, unit) rag_system" where
  "unbuilt_rag = \<lparr>collections = Map.empty, collection_name = ''retail_knowledge'',
     encode = (\<lambda>q. Inr ()), query = (\<lambda>c e k. Inr None)\<rparr>"

text \<open>An application whose retrieval raises while every other collaborator answers, and
  one whose language-model call raises as well.\<close>

definition rag_down_env :: app_env where
  "rag_down_env = \<lparr>db = \<lparr>customers = [], stores = []\<rparr>,
     get_customer_context = (\<lambda>cid. Inr []),
     rag_retrieve = (\<lambda>q k. Inl (OtherError ''index unavailable'')),
     build_prompt = (\<lambda>c s docs m. Inr (''system'', m)),
     call_llm_with_system = (\<lambda>sp up. Inr ''Hello!'')\<rparr>"

definition llm_down_env :: app_env where
  "llm_down_env = \<lparr>db = \<lparr>customers = [], stores = []\<rparr>,
     get_customer_context = (\<lambda>cid. Inr []),
     rag_retrieve = (\<lambda>q k. Inl (OtherError ''index unavailable'')),
     build_prompt = (\<lambda>c s docs m. Inr (''system'', m)),
     call_llm_with_system = (\<lambda>sp up. Inl (OtherError ''Error calling Groq API: no key''))\<rparr>"

section \<open>Notions for the general properties of masking\<close>

text \<open>
  What a pattern can match, read declaratively: \<open>conforms as k w\<close> holds when the word \<open>w\<close>
  is made of the atoms \<open>as\<close> in order, each repetition within its bounds, the first atom
  having already taken \<open>k\<close> characters. The assertions \<open>\b\<close> are ignored: they only refuse
  matches.
\<close>

fun conforms :: "pattern \<Rightarrow> nat \<Rightarrow> string \<Rightarrow> bool" where
  "conforms [] k w = (w = [])"
| "conforms (WordB # as) k w = conforms as 0 w"
| "conforms (Rep P lo hi # as) k [] = (lo \<le> k \<and> conforms as 0 [])"
| "conforms (Rep P lo hi # as) k (c # cs) =
     ((P c \<and> below k hi \<and> conforms (Rep P lo hi # as) (Suc k) cs)
      \<or> (lo \<le> k \<and> conforms as 0 (c # cs)))"

text \<open>The least length of such a word, the classes its characters come from, and whether
  some atom that cannot be skipped takes only characters satisfying \<open>Q\<close>.\<close>

fun minlen :: "pattern \<Rightarrow> nat \<Rightarrow> nat" where
  "minlen [] k = 0"
| "minlen (WordB # as) k = minlen as 0"
| "minlen (Rep P lo hi # as) k = (lo - k) + minlen as 0"

fun classes :: "pattern \<Rightarrow> char \<Rightarrow> bool" where
  "classes [] c = False"
| "classes (WordB # as) c = classes as c"
| "classes (Rep P lo hi # as) c = (P c \<or> classes as c)"

fun mandatory :: "(char \<Rightarrow> bool) \<Rightarrow> pattern \<Rightarrow> nat \<Rightarrow> bool" where
  "mandatory Q [] k = False"
| "mandatory Q (WordB # as) k = mandatory Q as 0"
| "mandatory Q (Rep P lo hi # as) k = ((k < lo \<and> (\<forall>c. P c \<longrightarrow> Q c)) \<or> mandatory Q as 0)"

text \<open>
  The characters between the brackets of a placeholder are those of \<open>PHONE_\<close> and \<open>EMAIL_\<close>
  and the digits. A literal that \<open>mask_text\<close> replaces has no bracket, and either has a
  character that no placeholder has, or is made of at least ten digits.
\<close>

definition inner_char :: "char \<Rightarrow> bool" where
  "inner_char c = (is_digit c \<or> c \<in> set ''PHONEMAIL_'')"

definition pii_literal :: "string \<Rightarrow> bool" where
  "pii_literal w = (w \<noteq> [] \<and> CHR ''['' \<notin> set w \<and> CHR '']'' \<notin> set w
     \<and> ((\<exists>c \<in> set w. \<not> inner_char c) \<or> ((\<forall>c \<in> set w. is_digit c) \<and> 10 \<le> length w)))"

text \<open>A token is a bracketed word with no bracket inside; the placeholders are tokens.\<close>

definition bracket_free :: "string \<Rightarrow> bool" where
  "bracket_free w = (CHR ''['' \<notin> set w \<and> CHR '']'' \<notin> set w)"

definition token :: "string \<Rightarrow> bool" where
  "token k = (\<exists>inner. bracket_free inner \<and> k = CHR ''['' # inner @ [CHR '']''])"

definition digits :: "string \<Rightarrow> bool" where
  "digits ds = (\<forall>c \<in> set ds. is_digit c)"

definition tag :: "string \<Rightarrow> bool" where
  "tag pre = (pre = ''PHONE_'' \<or> pre = ''EMAIL_'')"


text \<open>An occurrence of \<open>w\<close> in \<open>x @ z\<close> straddles when it begins in \<open>x\<close> and ends in \<open>z\<close>.\<close>

definition straddles :: "string \<Rightarrow> string \<Rightarrow> string \<Rightarrow> bool" where
  "straddles w x z = (\<exists>p q. p \<noteq> [] \<and> q \<noteq> [] \<and> w = p @ q \<and> suffix p x \<and> prefix q z)"

text \<open>
  A text is free of placeholders when no \<open>[PHONE_n]\<close> and no \<open>[EMAIL_n]\<close> occurs in it. A
  literal is marked when it has a character that no placeholder has.
\<close>

definition placeholder_free :: "string \<Rightarrow> bool" where
  "placeholder_free t =
     (\<forall>n. \<not> sublist (phone_placeholder n) t \<and> \<not> sublist (email_placeholder n) t)"

definition marked :: "string \<Rightarrow> bool" where
  "marked v = (\<exists>c \<in> set v. \<not> inner_char c)"

text \<open>
  The invariants of the phone loops: the keys of the table are the placeholders numbered
  from 1 up to the counter, and unmasking the masked text with the table gives the text
  \<open>t\<close> back.
\<close>

definition counter :: "mask_state \<Rightarrow> nat" where
  "counter st = snd (snd st)"

definition keys_inv :: "mask_state \<Rightarrow> bool" where
  "keys_inv st = (map fst (fst (snd st)) = map phone_placeholder [1 ..< counter st]
     \<and> 1 \<le> counter st)"

definition round_trip :: "string \<Rightarrow> mask_state \<Rightarrow> bool" where
  "round_trip t st = (unmask_text (fst st) (fst (snd st)) = t)"

section \<open>Properties of masking on concrete texts\<close>

text \<open>
  C2. The end-to-end scenario of the specification: masking the message gives the masked
  string and the two-entry table, and unmasking the synthetic response with that table
  restores the phone number.
\<close>

theorem mask_unmask_scenario:
  "mask_text ''Call me at +1-555-0101 or email alice@example.com''
     = (''Call me at [PHONE_1] or email [EMAIL_1]'',
        [(''[PHONE_1]'', ''+1-555-0101''), (''[EMAIL_1]'', ''alice@example.com'')])
   \<and> unmask_text ''Sure, we'll contact you at [PHONE_1].''
        [(''[PHONE_1]'', ''+1-555-0101''), (''[EMAIL_1]'', ''alice@example.com'')]
     = ''Sure, we'll contact you at +1-555-0101.''"
  by code_simp

lemma mask_callback_message:
  "mask_text callback_message = (''Call me at [PHONE_1]'', [(''[PHONE_1]'', ''555-123-4567'')])"
  unfolding callback_message_def by code_simp

lemma mask_bob_context:
  "mask_customer_context bob_context
     = Inr ([(''name'', VStr ''Bob''), (''phone'', VStr ''[PHONE_1]'')],
            [(''[PHONE_1]'', ''+1-555-0101'')])"
  unfolding bob_context_def by code_simp

lemma merged_callback_table:
  "dict_update [(''[PHONE_1]'', ''555-123-4567'')] [(''[PHONE_1]'', ''+1-555-0101'')]
     = [(''[PHONE_1]'', ''+1-555-0101'')]"
  by code_simp

lemma unmask_callback_message:
  "unmask_text ''Call me at [PHONE_1]'' [(''[PHONE_1]'', ''+1-555-0101'')]
     = ''Call me at +1-555-0101''"
  by code_simp

text \<open>
  C4. There are a message and a customer record, each with its own phone number, for which
  \<open>mask_text\<close> and \<open>mask_customer_context\<close> both produce the key \<open>[PHONE_1]\<close>; the merge done
  by \<open>process_message\<close> keeps the record's phone under that key, and unmasking the masked
  message with the merged table gives the record's phone, not the message.
\<close>

theorem merged_table_collision:
  "\<exists>message context masked_message pii_mapping masked_context customer_pii_mapping
      message_phone record_phone.
     mask_text message = (masked_message, pii_mapping)
   \<and> dict_get context ''phone'' = Some (VStr record_phone)
   \<and> mask_customer_context context = Inr (masked_context, customer_pii_mapping)
   \<and> dict_get pii_mapping ''[PHONE_1]'' = Some message_phone
   \<and> sublist message_phone message
   \<and> dict_get customer_pii_mapping ''[PHONE_1]'' = Some record_phone
   \<and> message_phone \<noteq> record_phone
   \<and> dict_get (dict_update pii_mapping customer_pii_mapping) ''[PHONE_1]'' = Some record_phone
   \<and> unmask_text masked_message (dict_update pii_mapping customer_pii_mapping)
       = ''Call me at '' @ record_phone
   \<and> unmask_text masked_message (dict_update pii_mapping customer_pii_mapping) \<noteq> message"
proof -
  have a: "sublist ''555-123-4567'' callback_message"
    unfolding callback_message_def sublist_def
    by (rule exI [of _ "''Call me at ''"], rule exI [of _ "[]"]) simp
  have b: "dict_get bob_context ''phone'' = Some (VStr ''+1-555-0101'')"
    by (simp add: dict_get_def bob_context_def)
  have c: "''Call me at +1-555-0101'' \<noteq> callback_message"
    by (simp add: callback_message_def)
  show ?thesis
    apply (rule exI [of _ callback_message])
    apply (rule exI [of _ bob_context])
    apply (rule exI [of _ "''Call me at [PHONE_1]''"])
    apply (rule exI [of _ "[(''[PHONE_1]'', ''555-123-4567'')]"])
    apply (rule exI [of _ "[(''name'', VStr ''Bob''), (''phone'', VStr ''[PHONE_1]'')]"])
    apply (rule exI [of _ "[(''[PHONE_1]'', ''+1-555-0101'')]"])
    apply (rule exI [of _ "''555-123-4567''"])
    apply (rule exI [of _ "''+1-555-0101''"])
    apply (simp only: mask_callback_message mask_bob_context merged_callback_table
        unmask_callback_message)
    apply (simp add: a b c)
    apply (simp add: dict_get_def)
    done
qed

section \<open>Properties of the distance and of the nearest store\<close>

lemma radians_diff: "radians (a - b) = - radians (b - a)"
  unfolding radians_def by (simp add: field_simps)

lemma haversine_a_sym: "haversine_a lat1 lon1 lat2 lon2 = haversine_a lat2 lon2 lat1 lon1"
proof -
  have "(sin (radians (lat2 - lat1) / 2))\<^sup>2 = (sin (radians (lat1 - lat2) / 2))\<^sup>2"
    by (simp add: radians_diff [of lat2 lat1] power2_eq_square)
  moreover have "(sin (radians (lon2 - lon1) / 2))\<^sup>2 = (sin (radians (lon1 - lon2) / 2))\<^sup>2"
    by (simp add: radians_diff [of lon2 lon1] power2_eq_square)
  ultimately show ?thesis by (simp add: haversine_a_def mult.commute)
qed

lemma haversine_a_self: "haversine_a lat lon lat lon = 0"
  by (simp add: haversine_a_def radians_def)

lemma round1_zero: "round1 0 = 0"
  by (simp add: round1_def round_half_even_def)

lemma calculate_distance_self: "calculate_distance lat lon lat lon = Inr 0"
  by (simp add: calculate_distance_def haversine_a_self math_sqrt_def atan2_def round1_zero)


text \<open>Over the real numbers the general definition is \<open>calculate_distance\<close> as defined first.\<close>

lemma calculate_distance_real:
  "calculate_distance_in real_arith lat1 lon1 lat2 lon2 = calculate_distance lat1 lon1 lat2 lon2"
  by (simp add: calculate_distance_in_def distance_of_def haversine_a_in_def real_arith_def
      calculate_distance_def haversine_a_def earth_radius_def split: sum.splits)

lemma sign_symmetric_real: "sign_symmetric real_arith uminus"
  by (simp add: sign_symmetric_def real_arith_def radians_def mult.commute)

lemma sign_symmetric_rounding_up: "sign_symmetric rounding_up_arith uminus"
  by (simp add: sign_symmetric_def rounding_up_arith_def real_arith_def radians_def mult.commute)

lemma exact_at_zero_real: "exact_at_zero real_arith"
  by (simp add: exact_at_zero_def real_arith_def radians_def math_sqrt_def atan2_def round1_def
      round_half_even_def)




text \<open>
  C6, at the input where the code departs from it: a customer whose latitude is \<open>0.0\<close> has
  numeric coordinates, yet the test \<open>not customer_row['latitude']\<close> sends the call to the
  fallback. The first store comes back with the distance 50, although the second store
  stands at the customer's own position, at computed distance 0.
\<close>

theorem nearest_store_on_equator:
  "get_nearest_store_for_customer equator_db 1 = Inr (StoreDict downtown 50)
   \<and> calculate_distance_val 0 (-73.9851) (store_latitude kiosk) (store_longitude kiosk) = Inr 0"
  by (simp add: get_nearest_store_for_customer_def fetch_customer_def equator_db_def
      default_store_def kiosk_def calculate_distance_self)

text \<open>
  C8. When the customer has no row, or the row's latitude or longitude is \<open>NULL\<close>, the call
  returns without an exception: its result is the first store of the table with
  \<open>distance_m\<close> set to 50.
\<close>

theorem nearest_store_fallback:
  assumes "fetch_customer dbase cid = None
     \<or> (\<exists>r. fetch_customer dbase cid = Some r
           \<and> (customer_latitude r = None \<or> customer_longitude r = None))"
    and "stores dbase = s # rest"
  shows "get_nearest_store_for_customer dbase cid = Inr (StoreDict s 50)"
  using assms by (auto simp: get_nearest_store_for_customer_def default_store_def)

theorem nearest_store_fallback_witness:
  "fetch_customer nowhere_db 7 = None
   \<and> get_nearest_store_for_customer nowhere_db 7 = Inr (StoreDict downtown 50)
   \<and> (\<exists>r. fetch_customer nowhere_db 3 = Some r \<and> customer_latitude r = None)
   \<and> get_nearest_store_for_customer nowhere_db 3 = Inr (StoreDict downtown 50)"
proof -
  have a: "fetch_customer nowhere_db 7 = None"
    by (simp add: fetch_customer_def nowhere_db_def)
  have b: "\<exists>r. fetch_customer nowhere_db 3 = Some r \<and> customer_latitude r = None"
    by (simp add: fetch_customer_def nowhere_db_def)
  have c: "stores nowhere_db = downtown # [kiosk]"
    by (simp add: nowhere_db_def)
  from b have b': "fetch_customer nowhere_db 3 = None
     \<or> (\<exists>r. fetch_customer nowhere_db 3 = Some r
           \<and> (customer_latitude r = None \<or> customer_longitude r = None))"
    by blast
  show ?thesis
    using a b nearest_store_fallback [OF disjI1 [OF a] c] nearest_store_fallback [OF b' c]
    by simp
qed

section \<open>Properties of retrieval and of process\_message\<close>

text \<open>
  C9. When the collection does not exist, \<open>retrieve\<close> returns the empty list for every
  query and every \<open>k\<close>, and raises nothing.
\<close>

theorem retrieve_without_collection:
  assumes "collections rag (collection_name rag) = None"
  shows "retrieve rag q k = Inr []"
  using assms by (simp add: retrieve_def get_collection_def)

theorem retrieve_without_collection_witness:
  "collections unbuilt_rag (collection_name unbuilt_rag) = None
   \<and> retrieve unbuilt_rag ''What hot drinks do you have?'' 2 = Inr []"
proof -
  have a: "collections unbuilt_rag (collection_name unbuilt_rag) = None"
    by (simp add: unbuilt_rag_def)
  show ?thesis using a retrieve_without_collection [OF a] by simp
qed

lemma mask_text_hi: "mask_text ''hi'' = (''hi'', [])"
  by code_simp

text \<open>
  C10, as stated, fails for the retrieval step: when \<open>rag_retrieve\<close> raises and the other
  steps succeed, the exception becomes a warning and the result is the model's response,
  not the apology.
\<close>

theorem retrieval_failure_is_no_apology:
  "rag_retrieve rag_down_env (fst (mask_text ''hi'')) TOP_K_RAG
     = Inl (OtherError ''index unavailable'')
   \<and> process_message rag_down_env ''hi'' 1
     = ([''RAG retrieval unavailable: index unavailable''], ''Hello!'')
   \<and> ''Hello!'' \<noteq> apology (OtherError ''index unavailable'')"
  by (simp add: process_message_def process_body_def rag_down_env_def
      get_nearest_store_for_customer_def fetch_customer_def default_store_def mask_text_hi
      mask_customer_context_def mask_field_def dict_get_def retrieve_docs_def unmask_text_def
      dict_update_def apology_def TOP_K_RAG_def)

text \<open>
  C10, amended. \<open>process_message\<close> always returns a string. An exception raised by the
  customer lookup, the nearest-store lookup, the masking of the customer record, the prompt
  builder or the language-model call is turned into the apology built from \<open>str(e)\<close>, and
  that apology is the result. An exception raised by retrieval is turned into a warning,
  the documents are empty, and the later steps decide the result; when every step other
  than retrieval succeeds the result is the model's response, unmasked with the merged
  table.
\<close>

theorem process_message_outcomes:
  "(get_customer_context env cid = Inl e \<longrightarrow> process_message env m cid = ([], apology e))
 \<and> (get_customer_context env cid = Inr ctx
      \<and> get_nearest_store_for_customer (db env) cid = Inl e
      \<longrightarrow> process_message env m cid = ([], apology e))
 \<and> (get_customer_context env cid = Inr ctx
      \<and> get_nearest_store_for_customer (db env) cid = Inr st
      \<and> mask_customer_context ctx = Inl e
      \<longrightarrow> process_message env m cid = ([], apology e))
 \<and> (get_customer_context env cid = Inr ctx
      \<and> get_nearest_store_for_customer (db env) cid = Inr st
      \<and> mask_customer_context ctx = Inr (mctx, cmap)
      \<and> retrieve_docs env (fst (mask_text m)) = (w, docs)
      \<and> build_prompt env mctx st docs (fst (mask_text m)) = Inl e
      \<longrightarrow> process_message env m cid = (w, apology e))
 \<and> (get_customer_context env cid = Inr ctx
      \<and> get_nearest_store_for_customer (db env) cid = Inr st
      \<and> mask_customer_context ctx = Inr (mctx, cmap)
      \<and> retrieve_docs env (fst (mask_text m)) = (w, docs)
      \<and> build_prompt env mctx st docs (fst (mask_text m)) = Inr (sp, up)
      \<and> call_llm_with_system env sp up = Inl e
      \<longrightarrow> process_message env m cid = (w, apology e))
 \<and> (get_customer_context env cid = Inr ctx
      \<and> get_nearest_store_for_customer (db env) cid = Inr st
      \<and> mask_customer_context ctx = Inr (mctx, cmap)
      \<and> retrieve_docs env (fst (mask_text m)) = (w, docs)
      \<and> build_prompt env mctx st docs (fst (mask_text m)) = Inr (sp, up)
      \<and> call_llm_with_system env sp up = Inr r
      \<longrightarrow> process_message env m cid
            = (w, unmask_text r (dict_update (snd (mask_text m)) cmap)))
 \<and> (rag_retrieve env (fst (mask_text m)) TOP_K_RAG = Inl e
      \<longrightarrow> retrieve_docs env (fst (mask_text m))
            = ([''RAG retrieval unavailable: '' @ str_error e], []))
 \<and> (rag_retrieve env (fst (mask_text m)) TOP_K_RAG = Inr ds
      \<longrightarrow> retrieve_docs env (fst (mask_text m)) = ([], ds))"
  by (auto simp: process_message_def process_body_def retrieve_docs_def split: prod.splits)


theorem process_message_outcomes_witness:
  "get_customer_context llm_down_env 1 = Inr []
   \<and> get_nearest_store_for_customer (db llm_down_env) 1 = Inr EmptyDict
   \<and> mask_customer_context [] = Inr ([], [])
   \<and> rag_retrieve llm_down_env (fst (mask_text ''hi'')) TOP_K_RAG
       = Inl (OtherError ''index unavailable'')
   \<and> retrieve_docs llm_down_env (fst (mask_text ''hi''))
       = ([''RAG retrieval unavailable: index unavailable''], [])
   \<and> build_prompt llm_down_env [] EmptyDict [] (fst (mask_text ''hi'')) = Inr (''system'', ''hi'')
   \<and> call_llm_with_system llm_down_env ''system'' ''hi''
       = Inl (OtherError ''Error calling Groq API: no key'')
   \<and> process_message llm_down_env ''hi'' 1
       = ([''RAG retrieval unavailable: index unavailable''],
          apology (OtherError ''Error calling Groq API: no key''))"
  using process_message_outcomes [where env = llm_down_env and cid = 1 and m = "''hi''"
      and ctx = "[]" and st = EmptyDict and mctx = "[]" and cmap = "[]"
      and w = "[''RAG retrieval unavailable: index unavailable'']" and docs = "[]"
      and sp = "''system''" and up = "''hi''"
      and e = "OtherError ''Error calling Groq API: no key''"]
  by (simp add: llm_down_env_def get_nearest_store_for_customer_def fetch_customer_def
      default_store_def mask_text_hi mask_customer_context_def mask_field_def dict_get_def
      retrieve_docs_def TOP_K_RAG_def)

section \<open>Masking: repeated values and placeholders already in the text\<close>

text \<open>
  C3, as stated, fails. A phone number that occurs twice gets one placeholder, but only its
  first occurrence is replaced: the second stays in the masked text. An email address that
  occurs twice gets two placeholders.
\<close>

theorem repeated_values_not_reused:
  "mask_text ''555-123-4567 or 555-123-4567''
     = (''[PHONE_1] or 555-123-4567'', [(''[PHONE_1]'', ''555-123-4567'')])
   \<and> mask_text ''a@b.co a@b.co''
     = (''[EMAIL_1] [EMAIL_2]'', [(''[EMAIL_1]'', ''a@b.co''), (''[EMAIL_2]'', ''a@b.co'')])"
  by code_simp


section \<open>What the patterns match\<close>

text \<open>
  The matcher is sound for the declarative reading: a match is a word that conforms to the
  pattern and a substring of the text. Hence every literal found by one of the six patterns
  is a \<open>pii_literal\<close>.
\<close>

lemma match_here_sound:
  "match_here as k prev s = Some n \<Longrightarrow> n \<le> length s \<and> conforms as k (take n s)"
proof (induction as k prev s arbitrary: n rule: match_here.induct)
  case (1 k prev s)
  then show ?case by simp
next
  case (2 as k prev s)
  then show ?case by (simp split: if_splits)
next
  case (3 P lo hi as k prev)
  then show ?case by (simp split: if_splits)
next
  case (4 P lo hi as k prev c cs)
  show ?case
  proof (cases "P c \<and> below k hi")
    case True
    show ?thesis
    proof (cases "match_here (Rep P lo hi # as) (Suc k) (Some c) cs")
      case None
      with True "4.prems" have lo: "lo \<le> k" and m: "match_here as 0 prev (c # cs) = Some n"
        by (auto split: if_splits)
      from "4.IH"(2) [OF True None lo m] have "n \<le> length (c # cs)" "conforms as 0 (take n (c # cs))"
        by auto
      then show ?thesis using lo by (cases n) auto
    next
      case (Some m)
      with True "4.prems" have n: "n = Suc m" by simp
      from "4.IH"(1) [OF True Some] have "m \<le> length cs" "conforms (Rep P lo hi # as) (Suc k) (take m cs)"
        by auto
      then show ?thesis using True n by simp
    qed
  next
    case False
    with "4.prems" have lo: "lo \<le> k" and m: "match_here as 0 prev (c # cs) = Some n"
      by (auto split: if_splits)
    from "4.IH"(3) [OF False lo m] have "n \<le> length (c # cs)" "conforms as 0 (take n (c # cs))"
      by auto
    then show ?thesis using lo by (cases n) auto
  qed
qed

lemma conforms_classes: "conforms as k w \<Longrightarrow> \<forall>c \<in> set w. classes as c"
  by (induction as k w rule: conforms.induct) auto

lemma conforms_minlen: "conforms as k w \<Longrightarrow> minlen as k \<le> length w"
  by (induction as k w rule: conforms.induct) auto

lemma conforms_mandatory: "conforms as k w \<Longrightarrow> mandatory Q as k \<Longrightarrow> \<exists>c \<in> set w. Q c"
  by (induction as k w rule: conforms.induct) auto

lemma find_from_sound: "x \<in> set (find_from p prev s) \<Longrightarrow> conforms p 0 x \<and> sublist x s"
proof (induction p prev s rule: find_from.induct)
  case (1 p prev)
  then show ?case
    using match_here_sound [of p 0 prev "[]"] by (cases "match_here p 0 prev []") auto
next
  case (2 p prev c cs)
  show ?case
  proof (cases "match_here p 0 prev (c # cs)")
    case None
    with 2 have "conforms p 0 x \<and> sublist x cs" by simp
    then show ?thesis by (auto simp: sublist_Cons_right)
  next
    case (Some n)
    note m = match_here_sound [OF Some]
    show ?thesis
    proof (cases n)
      case 0
      with Some 2 have "x = [] \<or> (conforms p 0 x \<and> sublist x cs)" by auto
      then show ?thesis using m 0 by (auto simp: sublist_Cons_right)
    next
      case (Suc j)
      with Some 2 have "x = take (Suc j) (c # cs) \<or> (conforms p 0 x \<and> sublist x (drop j cs))"
        by auto
      then show ?thesis
      proof
        assume x: "x = take (Suc j) (c # cs)"
        have "prefix (take (Suc j) (c # cs)) (c # cs)" by (rule take_is_prefix)
        then show ?thesis using m Suc x by (auto intro: prefix_imp_sublist)
      next
        assume a: "conforms p 0 x \<and> sublist x (drop j cs)"
        have "suffix (drop j cs) cs" by (rule suffix_drop)
        then have "sublist (drop j cs) (c # cs)"
          by (auto intro: suffix_imp_sublist simp: sublist_Cons_right)
        with a show ?thesis by (auto intro: sublist_order.order_trans)
      qed
    qed
  qed
qed

lemma findall_sound: "x \<in> set (findall p s) \<Longrightarrow> conforms p 0 x \<and> sublist x s"
  unfolding findall_def by (rule find_from_sound)

lemma inner_char_simps:
  "is_digit c \<Longrightarrow> inner_char c"
  by (simp add: inner_char_def)

lemma not_inner_plus: "\<not> inner_char CHR ''+''"
  by (simp add: inner_char_def is_digit_def)

lemma not_inner_paren: "\<not> inner_char CHR ''(''"
  by (simp add: inner_char_def is_digit_def)

lemma not_inner_at: "\<not> inner_char CHR ''@''"
  by (simp add: inner_char_def is_digit_def)

lemma not_inner_sep: "is_sep c \<Longrightarrow> \<not> inner_char c"
  by (auto simp: inner_char_def is_digit_def is_sep_def is_space_def)

lemma classes_no_bracket:
  assumes "p \<in> set phone_patterns \<or> p = email_pattern" and "classes p c"
  shows "c \<noteq> CHR ''['' \<and> c \<noteq> CHR '']''"
  using assms
  by (auto simp: phone_patterns_def phone_pattern_1_def phone_pattern_2_def phone_pattern_3_def
      phone_pattern_4_def phone_pattern_5_def email_pattern_def lit_def opt_def times_def
      is_digit_def is_sep_def is_space_def is_local_def is_domain_def is_tld_def is_upper_def
      is_lower_def)

lemma mandatory_cases:
  "mandatory (\<lambda>c. \<not> inner_char c) phone_pattern_1 0"
  "mandatory (\<lambda>c. \<not> inner_char c) phone_pattern_2 0"
  "mandatory (\<lambda>c. \<not> inner_char c) phone_pattern_3 0"
  "mandatory (\<lambda>c. \<not> inner_char c) phone_pattern_4 0"
  "mandatory (\<lambda>c. \<not> inner_char c) email_pattern 0"
  by (simp_all add: phone_pattern_1_def phone_pattern_2_def phone_pattern_3_def
      phone_pattern_4_def email_pattern_def lit_def opt_def times_def
      not_inner_plus not_inner_paren not_inner_at not_inner_sep)

lemma pattern_5_shape:
  "minlen phone_pattern_5 0 = 10" "classes phone_pattern_5 c = is_digit c"
  by (simp_all add: phone_pattern_5_def times_def)

lemma minlen_pos:
  assumes "p \<in> set phone_patterns \<or> p = email_pattern"
  shows "0 < minlen p 0"
  using assms
  by (auto simp: phone_patterns_def phone_pattern_1_def phone_pattern_2_def phone_pattern_3_def
      phone_pattern_4_def phone_pattern_5_def email_pattern_def lit_def opt_def times_def)

lemma findall_pii_literal:
  assumes p: "p \<in> set phone_patterns \<or> p = email_pattern" and x: "x \<in> set (findall p s)"
  shows "pii_literal x"
proof -
  from findall_sound [OF x] have c: "conforms p 0 x" by simp
  from conforms_minlen [OF c] minlen_pos [OF p] have ne: "x \<noteq> []" by auto
  from conforms_classes [OF c] classes_no_bracket [OF p]
  have nb: "CHR ''['' \<notin> set x \<and> CHR '']'' \<notin> set x" by blast
  have "(\<exists>c \<in> set x. \<not> inner_char c) \<or> ((\<forall>c \<in> set x. is_digit c) \<and> 10 \<le> length x)"
  proof (cases "p = phone_pattern_5")
    case True
    with conforms_minlen [OF c] conforms_classes [OF c] show ?thesis
      by (simp add: pattern_5_shape)
  next
    case False
    with p have "mandatory (\<lambda>c. \<not> inner_char c) p 0"
      by (auto simp: phone_patterns_def mandatory_cases)
    from conforms_mandatory [OF c this] show ?thesis by simp
  qed
  with ne nb show ?thesis by (simp add: pii_literal_def)
qed

lemma email_has_at:
  assumes x: "x \<in> set (findall email_pattern s)"
  shows "CHR ''@'' \<in> set x"
proof -
  from findall_sound [OF x] have c: "conforms email_pattern 0 x" by simp
  have "mandatory (\<lambda>c. c = CHR ''@'') email_pattern 0"
    by (simp add: email_pattern_def lit_def)
  from conforms_mandatory [OF c this] show ?thesis by simp
qed

lemma straddles_suffix: "straddles w x' z \<Longrightarrow> suffix x' x \<Longrightarrow> straddles w x z"
proof -
  assume "straddles w x' z" and s: "suffix x' x"
  then obtain p q where pq: "p \<noteq> []" "q \<noteq> []" "w = p @ q" "suffix p x'" "prefix q z"
    unfolding straddles_def by blast
  from pq(4) s have "suffix p x" by (rule suffix_order.order_trans)
  with pq show ?thesis unfolding straddles_def by blast
qed

lemma replace_first_absent: "\<not> sublist old s \<Longrightarrow> replace_first old new s = s"
proof (induction s)
  case Nil
  then show ?case by auto
next
  case (Cons c cs)
  then show ?case by (auto simp: sublist_Cons_right)
qed

lemma replace_first_present:
  "sublist old s \<Longrightarrow> \<exists>a b. s = a @ old @ b \<and> replace_first old new s = a @ new @ b"
proof (induction s)
  case Nil
  then show ?case by simp
next
  case (Cons c cs)
  show ?case
  proof (cases "prefix old (c # cs)")
    case True
    then obtain b where b: "c # cs = old @ b" by (auto simp: prefix_def)
    have "replace_first old new (c # cs) = new @ drop (length old) (c # cs)"
      using True by simp
    also have "drop (length old) (c # cs) = b" unfolding b by simp
    finally have "c # cs = [] @ old @ b \<and> replace_first old new (c # cs) = [] @ new @ b"
      using b by simp
    then show ?thesis by blast
  next
    case False
    with Cons.prems have "sublist old cs" by (simp add: sublist_Cons_right)
    from Cons.IH [OF this] obtain a b where "cs = a @ old @ b"
      "replace_first old new cs = a @ new @ b" by blast
    then have "c # cs = (c # a) @ old @ b \<and> replace_first old new (c # cs) = (c # a) @ new @ b"
      using False by simp
    then show ?thesis by blast
  qed
qed

lemma replace_all_absent: "\<not> sublist old s \<Longrightarrow> replace_all old new s = s"
proof (induction s)
  case Nil
  then show ?case by auto
next
  case (Cons c cs)
  then show ?case by (auto simp: sublist_Cons_right)
qed

lemma replace_all_hit:
  "old \<noteq> [] \<Longrightarrow> replace_all old new (old @ r) = new @ replace_all old new r"
  by (cases old) simp_all

lemma replace_all_miss:
  "old \<noteq> [] \<Longrightarrow> \<not> prefix old (c # cs) \<Longrightarrow>
   replace_all old new (c # cs) = c # replace_all old new cs"
  by simp

lemma replace_all_append:
  "old \<noteq> [] \<Longrightarrow> \<not> straddles old x z \<Longrightarrow>
   replace_all old new (x @ z) = replace_all old new x @ replace_all old new z"
proof (induction x rule: length_induct)
  case (1 x)
  note ne = "1.prems"(1) and ns = "1.prems"(2)
  show ?case
  proof (cases x)
    case Nil
    then show ?thesis using ne by (cases old) simp_all
  next
    case (Cons c cs)
    show ?thesis
    proof (cases "prefix old (x @ z)")
      case True
      have px: "prefix old x"
      proof (rule ccontr)
        assume n: "\<not> prefix old x"
        with True obtain us where us: "old = x @ us" "prefix us z"
          unfolding prefix_append by blast
        with n have "us \<noteq> []" by auto
        moreover have "x \<noteq> []" using Cons by simp
        ultimately have "straddles old x z"
          unfolding straddles_def using us by blast
        with ns show False by simp
      qed
      then obtain r where r: "x = old @ r" by (auto simp: prefix_def)
      have "length r < length x" using r ne by simp
      moreover have "\<not> straddles old r z"
        using ns straddles_suffix [of old r z x] r by (auto simp: suffix_def)
      ultimately have ih: "replace_all old new (r @ z)
          = replace_all old new r @ replace_all old new z"
        using "1.IH" ne by blast
      have "replace_all old new (x @ z) = replace_all old new (old @ (r @ z))"
        by (simp only: r append_assoc)
      also have "\<dots> = new @ replace_all old new (r @ z)"
        by (rule replace_all_hit [OF ne])
      also have "\<dots> = (new @ replace_all old new r) @ replace_all old new z"
        by (simp only: ih append_assoc)
      also have "new @ replace_all old new r = replace_all old new x"
        by (simp only: r replace_all_hit [OF ne])
      finally show ?thesis .
    next
      case False
      then have npz: "\<not> prefix old (c # (cs @ z))" using Cons by simp
      have np: "\<not> prefix old (c # cs)"
      proof
        assume "prefix old (c # cs)"
        then have "prefix old ((c # cs) @ z)" by (rule prefix_prefix)
        with npz show False by simp
      qed
      have "\<not> straddles old cs z"
        using ns straddles_suffix [of old cs z x] Cons by (auto simp: suffix_def)
      then have ih: "replace_all old new (cs @ z)
          = replace_all old new cs @ replace_all old new z"
        using "1.IH" ne Cons by simp
      have "replace_all old new (x @ z) = replace_all old new (c # (cs @ z))"
        by (simp only: Cons append_Cons)
      also have "\<dots> = c # replace_all old new (cs @ z)"
        by (rule replace_all_miss [OF ne npz])
      also have "\<dots> = (c # replace_all old new cs) @ replace_all old new z"
        by (simp only: ih append_Cons)
      also have "c # replace_all old new cs = replace_all old new x"
        by (simp only: Cons replace_all_miss [OF ne np])
      finally show ?thesis .
    qed
  qed
qed

lemma replace_all_skip:
  "old \<noteq> [] \<Longrightarrow> (\<And>s. s \<noteq> [] \<Longrightarrow> suffix s w \<Longrightarrow> \<not> prefix old (s @ y)) \<Longrightarrow>
   replace_all old new (w @ y) = w @ replace_all old new y"
proof (induction w)
  case Nil
  then show ?case by simp
next
  case (Cons c cs)
  have "\<not> prefix old ((c # cs) @ y)" by (rule Cons.prems(2)) simp_all
  moreover have "replace_all old new (cs @ y) = cs @ replace_all old new y"
    by (rule Cons.IH [OF Cons.prems(1)]) (simp_all add: Cons.prems(2) suffix_ConsI)
  ultimately show ?case using Cons.prems(1) by simp
qed

lemma token_nonempty: "token k \<Longrightarrow> k \<noteq> []"
  by (auto simp: token_def)

lemma token_hd: "token k \<Longrightarrow> \<exists>r. k = CHR ''['' # r \<and> CHR ''['' \<notin> set r"
  by (auto simp: token_def bracket_free_def)

lemma token_last: "token k \<Longrightarrow> \<exists>r. k = r @ [CHR '']''] \<and> CHR '']'' \<notin> set r"
proof -
  assume "token k"
  then obtain inner where i: "bracket_free inner" "k = CHR ''['' # inner @ [CHR '']'']"
    by (auto simp: token_def)
  then have "k = (CHR ''['' # inner) @ [CHR '']''] \<and> CHR '']'' \<notin> set (CHR ''['' # inner)"
    by (simp add: bracket_free_def)
  then show ?thesis by blast
qed

text \<open>No occurrence of a token runs into an opening bracket.\<close>

lemma token_not_straddles_open:
  assumes "token k"
  shows "\<not> straddles k x (CHR ''['' # r)"
proof
  assume "straddles k x (CHR ''['' # r)"
  then obtain p q where pq: "p \<noteq> []" "q \<noteq> []" "k = p @ q" "prefix q (CHR ''['' # r)"
    unfolding straddles_def by blast
  from pq(2,4) obtain q' where q: "q = CHR ''['' # q'" by (cases q) auto
  from token_hd [OF assms] obtain t where t: "k = CHR ''['' # t" "CHR ''['' \<notin> set t" by blast
  from pq(1) obtain a p' where p: "p = a # p'" by (cases p) auto
  from pq(3) t p q have "t = p' @ CHR ''['' # q'" by simp
  with t(2) show False by simp
qed

text \<open>No occurrence of a token runs across a bracket-free literal that is not part of it.\<close>

lemma token_not_straddles_literal:
  assumes k: "token k" and v: "CHR '']'' \<notin> set v" and ns: "\<not> sublist v k"
  shows "\<not> straddles k x (v @ y)"
proof
  assume "straddles k x (v @ y)"
  then obtain p q where pq: "p \<noteq> []" "q \<noteq> []" "k = p @ q" "prefix q (v @ y)"
    unfolding straddles_def by blast
  from token_last [OF k] obtain t where t: "k = t @ [CHR '']'']" by blast
  from pq(4) consider "prefix q v" | us where "q = v @ us"
    unfolding prefix_append by blast
  then show False
  proof cases
    case 1
    from pq(2,3) t have "last q = CHR '']''" by (metis last_appendR last_snoc)
    with pq(2) have "CHR '']'' \<in> set q" by (metis last_in_set)
    with 1 v show False by (auto simp: prefix_def)
  next
    case 2
    with pq(3) have "k = p @ v @ us" by simp
    then have "sublist v k" unfolding sublist_def by blast
    with ns show False by simp
  qed
qed

lemma token_prefix_eq:
  assumes "token k" and "token k'" and "prefix k (k' @ y)"
  shows "k = k'"
proof -
  from assms(1) obtain i where i: "bracket_free i" "k = CHR ''['' # i @ [CHR '']'']"
    by (auto simp: token_def)
  from assms(2) obtain j where j: "bracket_free j" "k' = CHR ''['' # j @ [CHR '']'']"
    by (auto simp: token_def)
  from assms(3) i j obtain z where z: "j @ CHR '']'' # y = i @ CHR '']'' # z"
    by (auto simp: prefix_def)
  have "takeWhile (\<lambda>c. c \<noteq> CHR '']'') (j @ CHR '']'' # y) = j"
    using j(1) by (auto simp: bracket_free_def takeWhile_tail)
  moreover have "takeWhile (\<lambda>c. c \<noteq> CHR '']'') (i @ CHR '']'' # z) = i"
    using i(1) by (auto simp: bracket_free_def takeWhile_tail)
  ultimately have "i = j" using z by simp
  with i j show ?thesis by simp
qed

text \<open>Inside a token no other token starts.\<close>

lemma token_starts_in_token:
  assumes k: "token k" and t: "token t" and ne: "k \<noteq> t"
    and s: "s \<noteq> []" "suffix s t"
  shows "\<not> prefix k (s @ y)"
proof
  assume p: "prefix k (s @ y)"
  from token_hd [OF k] obtain r where r: "k = CHR ''['' # r" by blast
  with p s(1) have hs: "hd s = CHR ''[''" by (cases s) auto
  from token_hd [OF t] obtain u where u: "t = CHR ''['' # u" "CHR ''['' \<notin> set u" by blast
  from s(2) u(1) have "s = t \<or> suffix s u" by (auto simp: suffix_Cons)
  then show False
  proof
    assume "s = t"
    with p token_prefix_eq [OF k t] ne show False by blast
  next
    assume "suffix s u"
    then have "set s \<subseteq> set u" by (rule set_mono_suffix)
    moreover from s(1) hs have "CHR ''['' \<in> set s" by (metis hd_in_set)
    ultimately show False using u(2) by blast
  qed
qed

lemma token_starts_in_literal:
  assumes k: "token k" and v: "CHR ''['' \<notin> set v" and s: "s \<noteq> []" "suffix s v"
  shows "\<not> prefix k (s @ y)"
proof
  assume p: "prefix k (s @ y)"
  from token_hd [OF k] obtain r where r: "k = CHR ''['' # r" by blast
  with p s(1) have hs: "hd s = CHR ''[''" by (cases s) auto
  from s(2) have "set s \<subseteq> set v" by (rule set_mono_suffix)
  moreover from s(1) hs have "CHR ''['' \<in> set s" by (metis hd_in_set)
  ultimately show False using v by blast
qed

lemma replace_all_other_token:
  assumes k: "token k" and t: "token t" and ne: "k \<noteq> t"
  shows "replace_all k new (x @ t @ y) = replace_all k new x @ t @ replace_all k new y"
proof -
  from token_hd [OF t] obtain r where r: "t = CHR ''['' # r" by blast
  have "\<not> straddles k x (t @ y)"
    using token_not_straddles_open [OF k, of x "r @ y"] r by simp
  then have "replace_all k new (x @ t @ y) = replace_all k new x @ replace_all k new (t @ y)"
    by (rule replace_all_append [OF token_nonempty [OF k]])
  also have "replace_all k new (t @ y) = t @ replace_all k new y"
    by (rule replace_all_skip [OF token_nonempty [OF k]])
      (rule token_starts_in_token [OF k t ne])
  finally show ?thesis .
qed

lemma replace_all_same_token:
  assumes k: "token k"
  shows "replace_all k new (x @ k @ y) = replace_all k new x @ new @ replace_all k new y"
proof -
  from token_hd [OF k] obtain r where r: "k = CHR ''['' # r" by blast
  have "\<not> straddles k x (k @ y)"
    using token_not_straddles_open [OF k, of x "r @ y"] r by simp
  then have "replace_all k new (x @ k @ y) = replace_all k new x @ replace_all k new (k @ y)"
    by (rule replace_all_append [OF token_nonempty [OF k]])
  also have "replace_all k new (k @ y) = new @ replace_all k new y"
    by (rule replace_all_hit [OF token_nonempty [OF k]])
  finally show ?thesis .
qed

lemma replace_all_literal:
  assumes k: "token k" and v: "bracket_free v" and ns: "\<not> sublist v k"
  shows "replace_all k new (x @ v @ y) = replace_all k new x @ v @ replace_all k new y"
proof -
  from v have v1: "CHR ''['' \<notin> set v" and v2: "CHR '']'' \<notin> set v"
    by (simp_all add: bracket_free_def)
  have "\<not> straddles k x (v @ y)"
    by (rule token_not_straddles_literal [OF k v2 ns])
  then have "replace_all k new (x @ v @ y) = replace_all k new x @ replace_all k new (v @ y)"
    by (rule replace_all_append [OF token_nonempty [OF k]])
  also have "replace_all k new (v @ y) = v @ replace_all k new y"
    by (rule replace_all_skip [OF token_nonempty [OF k]])
      (rule token_starts_in_literal [OF k v1])
  finally show ?thesis .
qed



lemma sublist_skip_left:
  assumes ne: "v \<noteq> []" and v: "\<forall>c \<in> set v. P c" and u: "\<forall>c \<in> set u. \<not> P c"
    and s: "sublist v (u @ w)"
  shows "sublist v w"
proof -
  from s consider "sublist v u" | "sublist v w" | p q where "v = p @ q" "suffix p u" "prefix q w"
    unfolding sublist_append by blast
  then show ?thesis
  proof cases
    case 1
    then have "set v \<subseteq> set u" by (rule set_mono_sublist)
    with ne v u show ?thesis by (cases v) auto
  next
    case 3
    from 3(2) have "set p \<subseteq> set u" by (rule set_mono_suffix)
    with 3(1) v u have "p = []" by (cases p) auto
    with 3 show ?thesis by auto
  qed
qed

lemma sublist_skip_right:
  assumes ne: "v \<noteq> []" and v: "\<forall>c \<in> set v. P c" and u: "\<forall>c \<in> set u. \<not> P c"
    and s: "sublist v (w @ u)"
  shows "sublist v w"
proof -
  from s consider "sublist v w" | "sublist v u" | p q where "v = p @ q" "suffix p w" "prefix q u"
    unfolding sublist_append by blast
  then show ?thesis
  proof cases
    case 2
    then have "set v \<subseteq> set u" by (rule set_mono_sublist)
    with ne v u show ?thesis by (cases v) auto
  next
    case 3
    from 3(3) have "set q \<subseteq> set u" by (rule set_mono_prefix)
    with 3(1) v u have "q = []" by (cases q) auto
    with 3 show ?thesis by auto
  qed
qed

lemma tag_chars: "tag pre \<Longrightarrow> c \<in> set pre \<Longrightarrow> inner_char c \<and> \<not> is_digit c \<and> c \<noteq> CHR ''['' \<and> c \<noteq> CHR '']''"
  by (auto simp: tag_def inner_char_def is_digit_def)

lemma digit_not_bracket: "is_digit c \<Longrightarrow> c \<noteq> CHR ''['' \<and> c \<noteq> CHR '']''"
  by (auto simp: is_digit_def)

lemma tagged_token:
  assumes "tag pre" and "digits ds"
  shows "token (CHR ''['' # pre @ ds @ [CHR '']''])"
proof -
  have "bracket_free (pre @ ds)"
    using assms tag_chars [OF assms(1)] digit_not_bracket
    by (auto simp: bracket_free_def digits_def)
  then show ?thesis unfolding token_def by (metis append_assoc)
qed

lemma pii_not_in_token:
  assumes p: "pii_literal v" and t: "tag pre" and d: "digits ds" and l: "length ds < 10"
  shows "\<not> sublist v (CHR ''['' # pre @ ds @ [CHR '']''])"
proof
  assume s: "sublist v (CHR ''['' # pre @ ds @ [CHR '']''])"
  then have sub: "set v \<subseteq> set (CHR ''['' # pre @ ds @ [CHR '']''])" by (rule set_mono_sublist)
  from p have ne: "v \<noteq> []" and nb: "CHR ''['' \<notin> set v" "CHR '']'' \<notin> set v"
    and alt: "(\<exists>c \<in> set v. \<not> inner_char c) \<or> ((\<forall>c \<in> set v. is_digit c) \<and> 10 \<le> length v)"
    by (simp_all add: pii_literal_def)
  from alt show False
  proof
    assume "\<exists>c \<in> set v. \<not> inner_char c"
    then obtain c where c: "c \<in> set v" "\<not> inner_char c" by blast
    with sub nb have "c \<in> set pre \<or> c \<in> set ds" by auto
    with c(2) tag_chars [OF t] d show False by (auto simp: digits_def inner_char_def)
  next
    assume a: "(\<forall>c \<in> set v. is_digit c) \<and> 10 \<le> length v"
    have "\<forall>c \<in> set (CHR ''['' # pre). \<not> is_digit c"
      using tag_chars [OF t] by (auto simp: is_digit_def)
    moreover from s have "sublist v ((CHR ''['' # pre) @ (ds @ [CHR '']'']))" by simp
    ultimately have "sublist v (ds @ [CHR '']''])"
      using sublist_skip_left [OF ne, of is_digit] a by blast
    moreover have "\<forall>c \<in> set [CHR '']'']. \<not> is_digit c" by (simp add: is_digit_def)
    ultimately have "sublist v ds"
      using sublist_skip_right [OF ne, of is_digit] a by blast
    then have "length v \<le> length ds" by (rule sublist_length_le)
    with a l show False by simp
  qed
qed










section \<open>The round trip of masking and unmasking\<close>

text \<open>
  \<open>str\<close> of a number is made of digits, is injective, and has at most \<open>k\<close> digits below
  \<open>10 ^ k\<close>. Hence the placeholders are tokens, pairwise distinct.
\<close>

declare str_nat.simps [simp del]

lemma digit_char_digit: "d < 10 \<Longrightarrow> is_digit (digit_char d)"
proof -
  assume "d < 10"
  then have "d \<in> {0, 1, 2, 3, 4, 5, 6, 7, 8, 9}" by auto
  then show ?thesis by (auto simp: digit_char_def is_digit_def)
qed

lemma digit_char_inj: "a < 10 \<Longrightarrow> b < 10 \<Longrightarrow> digit_char a = digit_char b \<Longrightarrow> a = b"
proof -
  assume "a < 10" "b < 10" and e: "digit_char a = digit_char b"
  then have "a \<in> {0, 1, 2, 3, 4, 5, 6, 7, 8, 9}" "b \<in> {0, 1, 2, 3, 4, 5, 6, 7, 8, 9}" by auto
  with e show ?thesis by (auto simp: digit_char_def)
qed

lemma str_nat_digits: "digits (str_nat n)"
proof (induction n rule: str_nat.induct)
  case (1 n)
  show ?case
  proof (cases "n < 10")
    case True
    then show ?thesis by (simp add: str_nat.simps [of n] digits_def digit_char_digit)
  next
    case False
    with 1 have "digits (str_nat (n div 10))" by simp
    moreover have "is_digit (digit_char (n mod 10))" by (rule digit_char_digit) simp
    ultimately show ?thesis using False by (simp add: str_nat.simps [of n] digits_def)
  qed
qed

lemma str_nat_nonempty: "str_nat n \<noteq> []"
  by (simp add: str_nat.simps [of n])

lemma str_nat_length: "0 < k \<Longrightarrow> n < 10 ^ k \<Longrightarrow> length (str_nat n) \<le> k"
proof (induction n arbitrary: k rule: str_nat.induct)
  case (1 n)
  show ?case
  proof (cases "n < 10")
    case True
    then show ?thesis using "1.prems" by (simp add: str_nat.simps [of n])
  next
    case False
    obtain j where k: "k = Suc j" using "1.prems"(1) by (cases k) auto
    have "0 < j"
    proof (rule ccontr)
      assume "\<not> 0 < j"
      with k "1.prems"(2) False show False by simp
    qed
    moreover have "n div 10 < 10 ^ j"
      using "1.prems"(2) k by (simp add: less_mult_imp_div_less mult.commute)
    ultimately have "length (str_nat (n div 10)) \<le> j"
      using "1.IH" False by simp
    then show ?thesis using False k by (simp add: str_nat.simps [of n])
  qed
qed

lemma str_nat_length_ge2: "10 \<le> n \<Longrightarrow> 2 \<le> length (str_nat n)"
proof -
  assume "10 \<le> n"
  then have "str_nat n = str_nat (n div 10) @ [digit_char (n mod 10)]"
    by (simp add: str_nat.simps [of n])
  moreover have "1 \<le> length (str_nat (n div 10))"
    using str_nat_nonempty [of "n div 10"] by (cases "str_nat (n div 10)") auto
  ultimately show ?thesis by simp
qed

lemma str_nat_inj: "str_nat n = str_nat m \<Longrightarrow> n = m"
proof (induction n arbitrary: m rule: str_nat.induct)
  case (1 n)
  show ?case
  proof (cases "n < 10")
    case True
    then have n: "str_nat n = [digit_char n]" by (simp add: str_nat.simps [of n])
    have "m < 10"
    proof (rule ccontr)
      assume "\<not> m < 10"
      then have "2 \<le> length (str_nat m)" by (simp add: str_nat_length_ge2)
      with n "1.prems" show False by simp
    qed
    then have "str_nat m = [digit_char m]" by (simp add: str_nat.simps [of m])
    with n "1.prems" True \<open>m < 10\<close> show ?thesis by (simp add: digit_char_inj)
  next
    case False
    then have n: "str_nat n = str_nat (n div 10) @ [digit_char (n mod 10)]"
      by (simp add: str_nat.simps [of n])
    have "\<not> m < 10"
    proof
      assume "m < 10"
      then have "str_nat m = [digit_char m]" by (simp add: str_nat.simps [of m])
      moreover from False have "2 \<le> length (str_nat n)" by (simp add: str_nat_length_ge2)
      ultimately show False using "1.prems" by simp
    qed
    then have m: "str_nat m = str_nat (m div 10) @ [digit_char (m mod 10)]"
      by (simp add: str_nat.simps [of m])
    from n m "1.prems" have e: "str_nat (n div 10) = str_nat (m div 10)"
      "digit_char (n mod 10) = digit_char (m mod 10)" by simp_all
    from "1.IH" [OF False e(1)] have "n div 10 = m div 10" .
    moreover from e(2) have "n mod 10 = m mod 10" by (rule digit_char_inj [rotated 2]) simp_all
    ultimately show ?thesis by (metis div_mult_mod_eq)
  qed
qed

lemma phone_placeholder_shape:
  "phone_placeholder n = CHR ''['' # ''PHONE_'' @ str_nat n @ [CHR '']'']"
  by (simp add: phone_placeholder_def)

lemma email_placeholder_shape:
  "email_placeholder n = CHR ''['' # ''EMAIL_'' @ str_nat n @ [CHR '']'']"
  by (simp add: email_placeholder_def)

lemma phone_placeholder_inj: "phone_placeholder n = phone_placeholder m \<Longrightarrow> n = m"
  by (simp add: phone_placeholder_def str_nat_inj)

lemma email_placeholder_inj: "email_placeholder n = email_placeholder m \<Longrightarrow> n = m"
  by (simp add: email_placeholder_def str_nat_inj)

lemma phone_not_email: "phone_placeholder n \<noteq> email_placeholder m"
  by (simp add: phone_placeholder_def email_placeholder_def)

lemma phone_placeholder_token: "token (phone_placeholder n)"
  unfolding phone_placeholder_shape
  by (rule tagged_token) (simp_all add: tag_def str_nat_digits)

lemma email_placeholder_token: "token (email_placeholder n)"
  unfolding email_placeholder_shape
  by (rule tagged_token) (simp_all add: tag_def str_nat_digits)

lemma unmask_text_Nil: "unmask_text s [] = s"
  by (simp add: unmask_text_def)

lemma unmask_text_Cons: "unmask_text s ((k, v) # d) = unmask_text (replace_all k v s) d"
  by (simp add: unmask_text_def)

lemma unmask_text_snoc: "unmask_text s (d @ [(k, v)]) = replace_all k v (unmask_text s d)"
  by (simp add: unmask_text_def)

lemma unmask_split_token:
  assumes t: "token t"
  shows "\<forall>k \<in> fst ` set d. token k \<and> k \<noteq> t \<Longrightarrow>
    unmask_text (a @ t @ b) d = unmask_text a d @ t @ unmask_text b d"
proof (induction d arbitrary: a b)
  case Nil
  then show ?case by (simp add: unmask_text_Nil)
next
  case (Cons e d)
  obtain k v where e: "e = (k, v)" by (cases e)
  from Cons.prems e have k: "token k" "k \<noteq> t" by auto
  have "unmask_text (a @ t @ b) (e # d) = unmask_text (replace_all k v (a @ t @ b)) d"
    by (simp only: e unmask_text_Cons)
  also have "replace_all k v (a @ t @ b) = replace_all k v a @ t @ replace_all k v b"
    by (rule replace_all_other_token [OF k(1) t k(2)])
  also have "unmask_text (replace_all k v a @ t @ replace_all k v b) d
      = unmask_text (replace_all k v a) d @ t @ unmask_text (replace_all k v b) d"
    by (rule Cons.IH) (use Cons.prems in auto)
  finally show ?case by (simp only: e unmask_text_Cons)
qed

lemma unmask_split_literal:
  assumes v: "bracket_free v"
  shows "\<forall>k \<in> fst ` set d. token k \<and> \<not> sublist v k \<Longrightarrow>
    unmask_text (a @ v @ b) d = unmask_text a d @ v @ unmask_text b d"
proof (induction d arbitrary: a b)
  case Nil
  then show ?case by (simp add: unmask_text_Nil)
next
  case (Cons e d)
  obtain k w where e: "e = (k, w)" by (cases e)
  from Cons.prems e have k: "token k" "\<not> sublist v k" by auto
  have "unmask_text (a @ v @ b) (e # d) = unmask_text (replace_all k w (a @ v @ b)) d"
    by (simp only: e unmask_text_Cons)
  also have "replace_all k w (a @ v @ b) = replace_all k w a @ v @ replace_all k w b"
    by (rule replace_all_literal [OF k(1) v k(2)])
  also have "unmask_text (replace_all k w a @ v @ replace_all k w b) d
      = unmask_text (replace_all k w a) d @ v @ unmask_text (replace_all k w b) d"
    by (rule Cons.IH) (use Cons.prems in auto)
  finally show ?case by (simp only: e unmask_text_Cons)
qed

lemma dict_set_new: "k \<notin> fst ` set d \<Longrightarrow> dict_set d k v = d @ [(k, v)]"
  by (induction d) auto

text \<open>One replacement, recorded under a fresh key, keeps the round trip.\<close>

lemma replacement_keeps_round_trip:
  assumes k: "token k" and fresh: "\<forall>k' \<in> fst ` set d. token k' \<and> k' \<noteq> k \<and> \<not> sublist v k'"
    and v: "bracket_free v" and nk: "\<not> sublist k t"
    and rt: "unmask_text m d = t"
  shows "unmask_text (replace_first v k m) (dict_set d k v) = t"
proof -
  from fresh have "k \<notin> fst ` set d" by blast
  then have ds: "dict_set d k v = d @ [(k, v)]" by (rule dict_set_new)
  show ?thesis
  proof (cases "sublist v m")
    case False
    then have "replace_first v k m = m" by (rule replace_first_absent)
    with ds rt nk show ?thesis by (simp add: unmask_text_snoc replace_all_absent)
  next
    case True
    from replace_first_present [OF True, of k] obtain a b where
      ab: "m = a @ v @ b" "replace_first v k m = a @ k @ b" by blast
    have "unmask_text (a @ v @ b) d = unmask_text a d @ v @ unmask_text b d"
      by (rule unmask_split_literal [OF v]) (use fresh in blast)
    with rt ab have t: "t = unmask_text a d @ v @ unmask_text b d" by simp
    have na: "\<not> sublist k (unmask_text a d)"
      using nk t by (auto simp: sublist_append)
    have nb: "\<not> sublist k (unmask_text b d)"
      using nk t by (auto simp: sublist_append)
    have "unmask_text (a @ k @ b) d = unmask_text a d @ k @ unmask_text b d"
      by (rule unmask_split_token [OF k]) (use fresh in blast)
    then have "unmask_text (replace_first v k m) (dict_set d k v)
        = replace_all k v (unmask_text a d @ k @ unmask_text b d)"
      by (simp only: ab(2) ds unmask_text_snoc)
    also have "\<dots> = replace_all k v (unmask_text a d) @ v @ replace_all k v (unmask_text b d)"
      by (rule replace_all_same_token [OF k])
    also have "\<dots> = unmask_text a d @ v @ unmask_text b d"
      by (simp only: replace_all_absent [OF na] replace_all_absent [OF nb])
    finally show ?thesis using t by simp
  qed
qed

lemma marked_not_in_token:
  assumes m: "marked v" and b: "bracket_free v" and t: "tag pre" and d: "digits ds"
  shows "\<not> sublist v (CHR ''['' # pre @ ds @ [CHR '']''])"
proof
  assume "sublist v (CHR ''['' # pre @ ds @ [CHR '']''])"
  then have sub: "set v \<subseteq> set (CHR ''['' # pre @ ds @ [CHR '']''])" by (rule set_mono_sublist)
  from m obtain c where c: "c \<in> set v" "\<not> inner_char c" by (auto simp: marked_def)
  with sub b have "c \<in> set pre \<or> c \<in> set ds" by (auto simp: bracket_free_def)
  with c(2) tag_chars [OF t] d show False by (auto simp: digits_def inner_char_def)
qed

lemma pii_bracket_free: "pii_literal v \<Longrightarrow> bracket_free v"
  by (simp add: pii_literal_def bracket_free_def)

lemma counter_phone_step: "counter st \<le> counter (phone_step st v)"
  by (cases st) (auto simp: counter_def)

lemma counter_phone_loop: "counter st \<le> counter (foldl phone_step st vs)"
proof (induction vs arbitrary: st)
  case Nil
  then show ?case by simp
next
  case (Cons v vs)
  have "counter st \<le> counter (phone_step st v)" by (rule counter_phone_step)
  also have "\<dots> \<le> counter (foldl phone_step (phone_step st v) vs)" by (rule Cons.IH)
  finally show ?case by simp
qed

lemma counter_pattern_step: "counter st \<le> counter (pattern_step st p)"
  using counter_phone_loop [of st] by (cases st) simp

lemma counter_pattern_loop: "counter st \<le> counter (foldl pattern_step st ps)"
proof (induction ps arbitrary: st)
  case Nil
  then show ?case by simp
next
  case (Cons p ps)
  have "counter st \<le> counter (pattern_step st p)" by (rule counter_pattern_step)
  also have "\<dots> \<le> counter (foldl pattern_step (pattern_step st p) ps)" by (rule Cons.IH)
  finally show ?case by simp
qed

lemma keys_fresh:
  assumes "keys_inv (m, d, c)"
  shows "phone_placeholder c \<notin> fst ` set d"
proof
  assume "phone_placeholder c \<in> fst ` set d"
  then have "phone_placeholder c \<in> set (map fst d)" by simp
  with assms have "phone_placeholder c \<in> set (map phone_placeholder [1 ..< c])"
    by (simp add: keys_inv_def counter_def)
  then obtain n where "n < c" "phone_placeholder c = phone_placeholder n" by auto
  then show False using phone_placeholder_inj [of c n] by simp
qed

lemma keys_phone_step:
  assumes "keys_inv st"
  shows "keys_inv (phone_step st v)"
proof -
  obtain m d c where st: "st = (m, d, c)" by (cases st)
  show ?thesis
  proof (cases "strip_nonempty v \<and> v \<notin> set (dict_values d)")
    case False
    with assms st show ?thesis by auto
  next
    case True
    from assms st have k: "map fst d = map phone_placeholder [1 ..< c]" "1 \<le> c"
      by (simp_all add: keys_inv_def counter_def)
    from keys_fresh assms st
    have "dict_set d (phone_placeholder c) v = d @ [(phone_placeholder c, v)]"
      by (simp add: dict_set_new)
    moreover have "[1 ..< Suc c] = [1 ..< c] @ [c]" using k(2) by simp
    ultimately show ?thesis using True st k by (simp add: keys_inv_def counter_def)
  qed
qed

lemma keys_phone_loop: "keys_inv st \<Longrightarrow> keys_inv (foldl phone_step st vs)"
  by (induction vs arbitrary: st) (simp_all add: keys_phone_step)

lemma keys_pattern_step: "keys_inv st \<Longrightarrow> keys_inv (pattern_step st p)"
  using keys_phone_loop [of st] by (cases st) simp

lemma keys_pattern_loop: "keys_inv st \<Longrightarrow> keys_inv (foldl pattern_step st ps)"
  by (induction ps arbitrary: st) (simp_all add: keys_pattern_step)

lemma round_trip_phone_step:
  assumes pf: "placeholder_free t" and v: "pii_literal v" and ki: "keys_inv st"
    and rt: "round_trip t st" and bound: "counter (phone_step st v) \<le> 10 ^ 9"
  shows "round_trip t (phone_step st v)"
proof -
  obtain m d c where st: "st = (m, d, c)" by (cases st)
  show ?thesis
  proof (cases "strip_nonempty v \<and> v \<notin> set (dict_values d)")
    case False
    with rt st show ?thesis by auto
  next
    case True
    with bound st have c: "c < 10 ^ 9" by (simp add: counter_def)
    from ki st have k: "map fst d = map phone_placeholder [1 ..< c]"
      by (simp add: keys_inv_def counter_def)
    have fresh: "\<forall>k' \<in> fst ` set d. token k' \<and> k' \<noteq> phone_placeholder c \<and> \<not> sublist v k'"
    proof
      fix k'
      assume "k' \<in> fst ` set d"
      then have "k' \<in> set (map fst d)" by simp
      with k obtain n where n: "n < c" "k' = phone_placeholder n" by auto
      from n(1) c have "n < 10 ^ 9" by simp
      then have "length (str_nat n) \<le> 9" by (intro str_nat_length) simp_all
      then have "\<not> sublist v (CHR ''['' # ''PHONE_'' @ str_nat n @ [CHR '']''])"
        by (intro pii_not_in_token [OF v]) (simp_all add: tag_def str_nat_digits)
      then have "\<not> sublist v k'" unfolding n(2) phone_placeholder_shape .
      moreover have "k' \<noteq> phone_placeholder c"
        using n phone_placeholder_inj [of n c] by auto
      ultimately show "token k' \<and> k' \<noteq> phone_placeholder c \<and> \<not> sublist v k'"
        using n(2) phone_placeholder_token by simp
    qed
    from pf have nk: "\<not> sublist (phone_placeholder c) t" by (simp add: placeholder_free_def)
    from rt st have "unmask_text m d = t" by (simp add: round_trip_def)
    from replacement_keeps_round_trip [OF phone_placeholder_token fresh pii_bracket_free [OF v] nk this]
    show ?thesis using True st by (simp add: round_trip_def)
  qed
qed

lemma round_trip_phone_loop:
  assumes pf: "placeholder_free t"
  shows "\<forall>v \<in> set vs. pii_literal v \<Longrightarrow> keys_inv st \<Longrightarrow> round_trip t st \<Longrightarrow>
    counter (foldl phone_step st vs) \<le> 10 ^ 9 \<Longrightarrow> round_trip t (foldl phone_step st vs)"
proof (induction vs arbitrary: st)
  case Nil
  then show ?case by simp
next
  case (Cons v vs)
  have "counter (phone_step st v) \<le> counter (foldl phone_step (phone_step st v) vs)"
    by (rule counter_phone_loop)
  with Cons.prems(4) have b: "counter (phone_step st v) \<le> 10 ^ 9" by simp
  have "round_trip t (phone_step st v)"
    by (rule round_trip_phone_step [OF pf _ Cons.prems(2,3) b]) (use Cons.prems(1) in simp)
  moreover have "keys_inv (phone_step st v)" by (rule keys_phone_step [OF Cons.prems(2)])
  ultimately show ?case using Cons.IH [of "phone_step st v"] Cons.prems(1,4) by simp
qed

lemma round_trip_pattern_step:
  assumes pf: "placeholder_free t" and p: "p \<in> set phone_patterns" and ki: "keys_inv st"
    and rt: "round_trip t st" and bound: "counter (pattern_step st p) \<le> 10 ^ 9"
  shows "round_trip t (pattern_step st p)"
proof -
  obtain m d c where st: "st = (m, d, c)" by (cases st)
  have "\<forall>v \<in> set (findall p m). pii_literal v" using findall_pii_literal p by blast
  from round_trip_phone_loop [OF pf this, of st] ki rt bound st show ?thesis by simp
qed

lemma round_trip_pattern_loop:
  assumes pf: "placeholder_free t"
  shows "set ps \<subseteq> set phone_patterns \<Longrightarrow> keys_inv st \<Longrightarrow> round_trip t st \<Longrightarrow>
    counter (foldl pattern_step st ps) \<le> 10 ^ 9 \<Longrightarrow> round_trip t (foldl pattern_step st ps)"
proof (induction ps arbitrary: st)
  case Nil
  then show ?case by simp
next
  case (Cons p ps)
  have "counter (pattern_step st p) \<le> counter (foldl pattern_step (pattern_step st p) ps)"
    by (rule counter_pattern_loop)
  with Cons.prems(4) have b: "counter (pattern_step st p) \<le> 10 ^ 9" by simp
  have "round_trip t (pattern_step st p)"
    by (rule round_trip_pattern_step [OF pf _ Cons.prems(2,3) b]) (use Cons.prems(1) in simp)
  moreover have "keys_inv (pattern_step st p)" by (rule keys_pattern_step [OF Cons.prems(2)])
  ultimately show ?case using Cons.IH [of "pattern_step st p"] Cons.prems(1,4) by simp
qed

lemma dict_set_length: "length d \<le> length (dict_set d k v)"
  by (induction d) auto

lemma email_loop_length: "length (snd st) \<le> length (snd (foldl email_step st es))"
proof (induction es arbitrary: st)
  case Nil
  then show ?case by simp
next
  case (Cons e es)
  obtain m d where st: "st = (m, d)" by (cases st)
  obtain i v where e: "e = (i, v)" by (cases e)
  have "length (snd st) \<le> length (snd (email_step st e))"
    using st e by (simp add: dict_set_length)
  also have "\<dots> \<le> length (snd (foldl email_step (email_step st e) es))" by (rule Cons.IH)
  finally show ?case by simp
qed

lemma round_trip_email_step:
  assumes pf: "placeholder_free t" and v: "marked v" "bracket_free v"
    and K: "\<forall>k \<in> set K. \<exists>n. k = phone_placeholder n"
    and keys: "map fst d = K @ map email_placeholder [1 ..< i]"
    and rt: "unmask_text m d = t"
  shows "unmask_text (replace_first v (email_placeholder i) m) (dict_set d (email_placeholder i) v) = t
    \<and> (1 \<le> i \<longrightarrow> map fst (dict_set d (email_placeholder i) v)
          = K @ map email_placeholder [1 ..< Suc i])"
proof -
  have fresh: "\<forall>k' \<in> fst ` set d. token k' \<and> k' \<noteq> email_placeholder i \<and> \<not> sublist v k'"
  proof
    fix k'
    assume "k' \<in> fst ` set d"
    then have "k' \<in> set (map fst d)" by simp
    with keys have "k' \<in> set K \<or> k' \<in> set (map email_placeholder [1 ..< i])" by simp
    then consider n where "k' = phone_placeholder n" | n where "n < i" "k' = email_placeholder n"
      using K by auto
    then show "token k' \<and> k' \<noteq> email_placeholder i \<and> \<not> sublist v k'"
    proof cases
      case 1
      have "\<not> sublist v (CHR ''['' # ''PHONE_'' @ str_nat n @ [CHR '']''])"
        by (intro marked_not_in_token [OF v]) (simp_all add: tag_def str_nat_digits)
      then have "\<not> sublist v k'" unfolding 1 phone_placeholder_shape .
      then show ?thesis using 1 phone_placeholder_token phone_not_email by simp
    next
      case 2
      have "\<not> sublist v (CHR ''['' # ''EMAIL_'' @ str_nat n @ [CHR '']''])"
        by (intro marked_not_in_token [OF v]) (simp_all add: tag_def str_nat_digits)
      then have "\<not> sublist v k'" unfolding 2(2) email_placeholder_shape .
      moreover have "k' \<noteq> email_placeholder i"
        using 2 email_placeholder_inj [of n i] by auto
      ultimately show ?thesis using 2(2) email_placeholder_token by simp
    qed
  qed
  from pf have nk: "\<not> sublist (email_placeholder i) t" by (simp add: placeholder_free_def)
  have a: "unmask_text (replace_first v (email_placeholder i) m)
      (dict_set d (email_placeholder i) v) = t"
    by (rule replacement_keeps_round_trip [OF email_placeholder_token fresh v(2) nk rt])
  from fresh have "email_placeholder i \<notin> fst ` set d" by blast
  then have "dict_set d (email_placeholder i) v = d @ [(email_placeholder i, v)]"
    by (rule dict_set_new)
  then have "1 \<le> i \<longrightarrow> map fst (dict_set d (email_placeholder i) v)
      = K @ map email_placeholder [1 ..< Suc i]"
    using keys by simp
  with a show ?thesis by simp
qed

lemma round_trip_email_loop:
  assumes pf: "placeholder_free t" and K: "\<forall>k \<in> set K. \<exists>n. k = phone_placeholder n"
  shows "\<forall>v \<in> set es. marked v \<and> bracket_free v \<Longrightarrow> 1 \<le> i \<Longrightarrow>
    map fst d = K @ map email_placeholder [1 ..< i] \<Longrightarrow> unmask_text m d = t \<Longrightarrow>
    unmask_text (fst (foldl email_step (m, d) (zip [i ..< i + length es] es)))
      (snd (foldl email_step (m, d) (zip [i ..< i + length es] es))) = t"
proof (induction es arbitrary: i m d)
  case Nil
  then show ?case by simp
next
  case (Cons v vs)
  let ?m = "replace_first v (email_placeholder i) m"
  let ?d = "dict_set d (email_placeholder i) v"
  from Cons.prems(1) have v: "marked v" "bracket_free v" by simp_all
  from round_trip_email_step [OF pf v K Cons.prems(3,4)] Cons.prems(2)
  have s: "unmask_text ?m ?d = t" "map fst ?d = K @ map email_placeholder [1 ..< Suc i]"
    by simp_all
  have u: "[i ..< i + length (v # vs)] = i # [Suc i ..< Suc i + length vs]"
    by (subst upt_conv_Cons) simp_all
  have z: "zip [i ..< i + length (v # vs)] (v # vs) = (i, v) # zip [Suc i ..< Suc i + length vs] vs"
    unfolding u by simp
  have "unmask_text (fst (foldl email_step (?m, ?d) (zip [Suc i ..< Suc i + length vs] vs)))
      (snd (foldl email_step (?m, ?d) (zip [Suc i ..< Suc i + length vs] vs))) = t"
    by (rule Cons.IH) (use Cons.prems(1) s in simp_all)
  then show ?case by (simp only: z foldl_Cons email_step.simps)
qed

lemma placeholder_free_no_bracket: "CHR ''['' \<notin> set t \<Longrightarrow> placeholder_free t"
proof -
  assume n: "CHR ''['' \<notin> set t"
  have "\<not> sublist k t" if "token k" for k
  proof
    assume "sublist k t"
    then have "set k \<subseteq> set t" by (rule set_mono_sublist)
    moreover from token_hd [OF that] have "CHR ''['' \<in> set k" by auto
    ultimately show False using n by blast
  qed
  then show ?thesis
    by (simp add: placeholder_free_def phone_placeholder_token email_placeholder_token)
qed

text \<open>
  The round trip, for a text free of placeholders whose table has fewer than \<open>10 ^ 9\<close>
  entries: unmasking the masked text with its own table gives the text back. Below that
  size every placeholder number has at most nine digits, so that no matched literal is part
  of a placeholder.
\<close>

theorem mask_unmask_round_trip:
  assumes "placeholder_free t" and "length (snd (mask_text t)) < 10 ^ 9"
  shows "unmask_text (fst (mask_text t)) (snd (mask_text t)) = t"
proof -
  obtain m d c where mp: "mask_phones t = (m, d, c)" by (cases "mask_phones t")
  let ?es = "findall email_pattern m"
  have mt: "mask_text t = foldl email_step (m, d) (zip [1 ..< 1 + length ?es] ?es)"
    by (simp add: mask_text_def mp enumerate1_def)
  have "keys_inv (t, [], 1)" by (simp add: keys_inv_def counter_def)
  then have "keys_inv (foldl pattern_step (t, [], 1) phone_patterns)"
    by (rule keys_pattern_loop)
  with mp have ki: "map fst d = map phone_placeholder [1 ..< c]" "1 \<le> c"
    by (simp_all add: mask_phones_def keys_inv_def counter_def)
  from ki(1) have "length (map fst d) = length (map phone_placeholder [1 ..< c])" by simp
  then have ld: "length d = c - 1" by simp
  have "length (snd (m, d)) \<le> length (snd (foldl email_step (m, d) (zip [1 ..< 1 + length ?es] ?es)))"
    by (rule email_loop_length)
  with mt assms(2) ld have "c \<le> 10 ^ 9" by simp
  with mp have b: "counter (foldl pattern_step (t, [], 1) phone_patterns) \<le> 10 ^ 9"
    by (simp add: mask_phones_def counter_def)
  have "round_trip t (foldl pattern_step (t, [], 1) phone_patterns)"
    by (rule round_trip_pattern_loop [OF assms(1) _ \<open>keys_inv (t, [], 1)\<close> _ b])
      (simp_all add: round_trip_def unmask_text_Nil)
  with mp have rt: "unmask_text m d = t" by (simp add: mask_phones_def round_trip_def)
  have em: "\<forall>v \<in> set ?es. marked v \<and> bracket_free v"
  proof
    fix v
    assume v: "v \<in> set ?es"
    from email_has_at [OF v] not_inner_at have "marked v" by (auto simp: marked_def)
    moreover from findall_pii_literal [of email_pattern v m] v have "bracket_free v"
      by (simp add: pii_bracket_free)
    ultimately show "marked v \<and> bracket_free v" by simp
  qed
  have K: "\<forall>k \<in> set (map phone_placeholder [1 ..< c]). \<exists>n. k = phone_placeholder n" by auto
  have "unmask_text (fst (foldl email_step (m, d) (zip [1 ..< 1 + length ?es] ?es)))
      (snd (foldl email_step (m, d) (zip [1 ..< 1 + length ?es] ?es))) = t"
    by (rule round_trip_email_loop [OF assms(1) K em _ _ rt]) (simp_all add: ki)
  with mt show ?thesis by simp
qed

theorem mask_unmask_round_trip_witness:
  "placeholder_free ''Call 555-123-4567 or mail bob@shop.com''
   \<and> mask_text ''Call 555-123-4567 or mail bob@shop.com''
       = (''Call [PHONE_1] or mail [EMAIL_1]'',
          [(''[PHONE_1]'', ''555-123-4567''), (''[EMAIL_1]'', ''bob@shop.com'')])
   \<and> unmask_text (fst (mask_text ''Call 555-123-4567 or mail bob@shop.com''))
        (snd (mask_text ''Call 555-123-4567 or mail bob@shop.com''))
       = ''Call 555-123-4567 or mail bob@shop.com''"
proof -
  have a: "placeholder_free ''Call 555-123-4567 or mail bob@shop.com''"
    by (rule placeholder_free_no_bracket) simp
  have b: "mask_text ''Call 555-123-4567 or mail bob@shop.com''
       = (''Call [PHONE_1] or mail [EMAIL_1]'',
          [(''[PHONE_1]'', ''555-123-4567''), (''[EMAIL_1]'', ''bob@shop.com'')])"
    by code_simp
  have "length (snd (mask_text ''Call 555-123-4567 or mail bob@shop.com'')) < 10 ^ 9"
    by (simp add: b)
  from mask_unmask_round_trip [OF a this] a b show ?thesis by simp
qed

end
